theory Spec2Isabelle
  imports Complex_Main
begin

section \<open>Data model (models.py, double\_hashing.py)\<close>

text \<open>
  A Python \<open>str\<close> is the list of its code points, so that \<open>ord\<close> is the embedding of a
  code point into the integers. \<open>py\<close> writes an ASCII literal.
\<close>

type_synonym pystr = "nat list"

definition py :: "string \<Rightarrow> pystr" where
  "py s = map of_char s"

definition ord :: "nat \<Rightarrow> int" where
  "ord c = int c"

text \<open>The exceptions the table's code can raise.\<close>

datatype py_error = ZeroDivisionError | IndexError | AttributeError

text \<open>
  \<open>Product\<close> (a dataclass). The price \<open>gia\<close> is a float that the table only stores and
  copies; it is carried as a real number.
\<close>

record Product =
  ma_san_pham :: pystr
  ten_san_pham :: pystr
  gia :: real
  so_luong :: int
  mo_ta :: pystr

text \<open>
  \<open>HashEntry\<close>: \<open>to_dict\<close> and \<open>from_dict\<close> both handle a product that is \<open>None\<close>, so the
  field is optional.
\<close>

record HashEntry =
  he_product :: "Product option"
  he_is_deleted :: bool

text \<open>
  The diagnostic payload of a probe walk. The f-strings of the source are kept as the
  template they instantiate together with the integers they interpolate, in order.
\<close>

datatype slot_status = Occupied | Deleted | Empty

record step_info =
  si_attempt :: int
  si_formula :: "int list"
  si_position :: int
  si_status :: slot_status
  si_occupied_by :: "pystr option"
  si_found_key :: "pystr option"

record calc_details =
  cd_key :: pystr
  cd_ascii_sum :: int
  cd_ascii_breakdown :: "(nat \<times> int) list"
  cd_size :: int
  cd_R :: int
  cd_h1 :: int
  cd_h1_formula :: "int list"
  cd_h2 :: int
  cd_h2_formula :: "int list"
  cd_probe_steps :: "step_info list"

text \<open>
  The resolution texts: \<open>Insert_resolved i pos\<close> is the text of a landed insert,
  \<open>Search_failed i pos\<close> of a search that met an empty slot, \<open>Search_found i pos\<close> of a
  search that found its key.
\<close>

datatype resolution =
  Insert_resolved int int
| Search_failed int int
| Search_found int int

text \<open>\<open>CollisionLog\<close>; \<open>None\<close> in \<open>cl_calculation_details\<close> is the empty dict.\<close>

record CollisionLog =
  cl_key :: pystr
  cl_operation :: pystr
  cl_probe_sequence :: "int list"
  cl_resolution :: resolution
  cl_collision_count :: int
  cl_calculation_details :: "calc_details option"

definition CollisionLog_init ::
  "pystr \<Rightarrow> pystr \<Rightarrow> int list \<Rightarrow> resolution \<Rightarrow> calc_details option \<Rightarrow> CollisionLog" where
  "CollisionLog_init key operation probe_sequence resolution calculation_details =
     \<lparr>cl_key = key,
      cl_operation = operation,
      cl_probe_sequence = probe_sequence,
      cl_resolution = resolution,
      cl_collision_count = int (length probe_sequence) - 1,
      cl_calculation_details =
        (case calculation_details of None \<Rightarrow> None | Some d \<Rightarrow> Some d)\<rparr>"

record DoubleHashTable =
  ht_size :: int
  ht_table :: "HashEntry option list"
  ht_count :: int
  ht_collision_count :: int
  ht_collision_logs :: "CollisionLog list"

text \<open>\<open>DoubleHashTable.__init__\<close>: \<open>[None] * size\<close> is empty for a size below one.\<close>

definition DoubleHashTable_init :: "int \<Rightarrow> DoubleHashTable" where
  "DoubleHashTable_init n =
     \<lparr>ht_size = n,
      ht_table = replicate (nat n) None,
      ht_count = 0,
      ht_collision_count = 0,
      ht_collision_logs = []\<rparr>"

text \<open>The messages returned beside the success flag.\<close>

datatype message =
  Table_full
| Inserted_at int
| Already_exists
| Could_not_insert
| Not_found
| Deleted_from int

section \<open>Python primitives\<close>

text \<open>\<open>a % b\<close>: floor modulo, as \<open>mod\<close> on \<open>int\<close>, but a zero divisor raises.\<close>

definition py_mod :: "int \<Rightarrow> int \<Rightarrow> py_error + int" where
  "py_mod a b = (if b = 0 then Inl ZeroDivisionError else Inr (a mod b))"

text \<open>
  The list position that \<open>xs[i]\<close> reads or writes. An index from \<open>-len(xs)\<close> to \<open>-1\<close>
  counts from the end; any other index outside the list raises.
\<close>

definition py_index :: "'a list \<Rightarrow> int \<Rightarrow> py_error + nat" where
  "py_index xs i =
     (if 0 \<le> i \<and> i < int (length xs) then Inr (nat i)
      else if - int (length xs) \<le> i \<and> i < 0 then Inr (nat (int (length xs) + i))
      else Inl IndexError)"

text \<open>
  \<open>int(num ** 0.5)\<close>: the integer part of the square root. The float computation gives
  exactly this for every \<open>num\<close> below \<open>2^50\<close>, far beyond the size of a table that fits
  in memory.
\<close>

primrec isqrt :: "nat \<Rightarrow> nat" where
  "isqrt 0 = 0"
| "isqrt (Suc n) = (let r = isqrt n in if (r + 1) * (r + 1) \<le> Suc n then r + 1 else r)"

section \<open>Hash derivation\<close>

definition ascii_sum :: "pystr \<Rightarrow> int" where
  "ascii_sum key = sum_list (map ord key)"

definition hash1 :: "DoubleHashTable \<Rightarrow> pystr \<Rightarrow> py_error + int" where
  "hash1 self key = py_mod (ascii_sum key) (ht_size self)"

definition is_prime :: "int \<Rightarrow> bool" where
  "is_prime num =
     (if num < 2 then False
      else list_all (\<lambda>i. num mod i \<noteq> 0) [2 .. int (isqrt (nat num))])"

text \<open>\<open>range(n - 1, 1, -1)\<close> is \<open>n - 1, n - 2, ..., 2\<close>; the first prime met is returned.\<close>

definition get_prime_less_than :: "int \<Rightarrow> int" where
  "get_prime_less_than n =
     (case find is_prime (rev [2 .. n - 1]) of Some i \<Rightarrow> i | None \<Rightarrow> 1)"

definition hash2 :: "DoubleHashTable \<Rightarrow> pystr \<Rightarrow> int" where
  "hash2 self key =
     (let R = get_prime_less_than (ht_size self);
          hash_value = ascii_sum key
      in R - (hash_value mod R))"

definition probe :: "DoubleHashTable \<Rightarrow> pystr \<Rightarrow> int \<Rightarrow> py_error + int" where
  "probe self key i =
     (case hash1 self key of
        Inl e \<Rightarrow> Inl e
      | Inr h \<Rightarrow> py_mod (h + i * hash2 self key) (ht_size self))"

section \<open>insert\<close>

text \<open>The calculation details built before the probe loop of \<open>insert\<close> and \<open>search\<close>.\<close>

definition calculation_details_init ::
  "DoubleHashTable \<Rightarrow> pystr \<Rightarrow> int \<Rightarrow> calc_details" where
  "calculation_details_init self key h1_value =
     (let asum = ascii_sum key;
          h2_value = hash2 self key;
          R = get_prime_less_than (ht_size self)
      in \<lparr>cd_key = key,
          cd_ascii_sum = asum,
          cd_ascii_breakdown = map (\<lambda>c. (c, ord c)) key,
          cd_size = ht_size self,
          cd_R = R,
          cd_h1 = h1_value,
          cd_h1_formula = [asum, ht_size self, h1_value],
          cd_h2 = h2_value,
          cd_h2_formula = [R, asum, R, R, asum mod R, h2_value],
          cd_probe_steps = []\<rparr>)"

definition probe_formula :: "DoubleHashTable \<Rightarrow> int \<Rightarrow> int \<Rightarrow> int \<Rightarrow> int \<Rightarrow> int list" where
  "probe_formula self h1_value h2_value i pos =
     [h1_value, i, h2_value, ht_size self, h1_value, i * h2_value, ht_size self, pos]"

definition add_step :: "calc_details \<Rightarrow> step_info \<Rightarrow> calc_details" where
  "add_step d s = d\<lparr>cd_probe_steps := cd_probe_steps d @ [s]\<rparr>"

definition step ::
  "DoubleHashTable \<Rightarrow> calc_details \<Rightarrow> int \<Rightarrow> int \<Rightarrow> slot_status
     \<Rightarrow> pystr option \<Rightarrow> pystr option \<Rightarrow> calc_details" where
  "step self details i pos status occupied_by found_key =
     add_step details
       \<lparr>si_attempt = i,
        si_formula = probe_formula self (cd_h1 details) (cd_h2 details) i pos,
        si_position = pos,
        si_status = status,
        si_occupied_by = occupied_by,
        si_found_key = found_key\<rparr>"

text \<open>
  The landing branch of \<open>insert\<close>: the entry is stored at list position \<open>j\<close> (slot
  \<open>pos\<close>), the live counter grows, and after a first attempt that did not land the
  collision counter grows and the walk is logged.
\<close>

definition place ::
  "DoubleHashTable \<Rightarrow> Product \<Rightarrow> int \<Rightarrow> int \<Rightarrow> nat \<Rightarrow> int list \<Rightarrow> calc_details
     \<Rightarrow> DoubleHashTable" where
  "place self product i pos j probe_sequence details =
     (let self1 = self\<lparr>ht_table := (ht_table self)
                        [j := Some \<lparr>he_product = Some product, he_is_deleted = False\<rparr>],
                      ht_count := ht_count self + 1\<rparr>
      in if i > 0
         then self1\<lparr>ht_collision_count := ht_collision_count self1 + 1,
                    ht_collision_logs := ht_collision_logs self1 @
                      [CollisionLog_init (ma_san_pham product) (py ''INSERT'') probe_sequence
                         (Insert_resolved i pos) (Some details)]\<rparr>
         else self1)"

text \<open>
  The body of \<open>for i in range(self.size)\<close> in \<open>insert\<close>: \<open>n\<close> attempts remain, \<open>i\<close> is
  the current attempt. A live entry whose product is \<open>None\<close> raises when its key is read.
\<close>

fun insert_loop ::
  "Product \<Rightarrow> nat \<Rightarrow> int \<Rightarrow> int list \<Rightarrow> calc_details \<Rightarrow> DoubleHashTable
     \<Rightarrow> py_error + ((bool \<times> message \<times> int list) \<times> DoubleHashTable)" where
  "insert_loop product 0 i probe_sequence details self =
     Inr ((False, Could_not_insert, probe_sequence), self)"
| "insert_loop product (Suc n) i probe_sequence details self =
     (case probe self (ma_san_pham product) i of
        Inl e \<Rightarrow> Inl e
      | Inr pos \<Rightarrow>
         (case py_index (ht_table self) pos of
            Inl e \<Rightarrow> Inl e
          | Inr j \<Rightarrow>
             (case ht_table self ! j of
                None \<Rightarrow>
                  Inr ((True, Inserted_at pos, probe_sequence @ [pos]),
                    place self product i pos j (probe_sequence @ [pos])
                      (step self details i pos Empty None None))
              | Some entry \<Rightarrow>
                  if he_is_deleted entry then
                    Inr ((True, Inserted_at pos, probe_sequence @ [pos]),
                      place self product i pos j (probe_sequence @ [pos])
                        (step self details i pos Deleted None None))
                  else
                    (case he_product entry of
                       None \<Rightarrow> Inl AttributeError
                     | Some other \<Rightarrow>
                         if ma_san_pham other = ma_san_pham product then
                           Inr ((False, Already_exists, probe_sequence @ [pos]), self)
                         else
                           insert_loop product n (i + 1) (probe_sequence @ [pos])
                             (step self details i pos Occupied
                                (Some (ma_san_pham other)) None)
                             (if i = 0
                              then self\<lparr>ht_collision_count := ht_collision_count self + 1\<rparr>
                              else self)))))"

definition insert_ht ::
  "DoubleHashTable \<Rightarrow> Product
     \<Rightarrow> py_error + ((bool \<times> message \<times> int list) \<times> DoubleHashTable)" where
  "insert_ht self product =
     (if ht_count self \<ge> ht_size self then Inr ((False, Table_full, []), self)
      else
        (let key = ma_san_pham product in
         case hash1 self key of
           Inl e \<Rightarrow> Inl e
         | Inr h1_value \<Rightarrow>
             insert_loop product (nat (ht_size self)) 0 []
               (calculation_details_init self key h1_value) self))"

section \<open>search and delete\<close>

text \<open>The log entry a search appends when it ends after the first attempt.\<close>

definition log_search ::
  "DoubleHashTable \<Rightarrow> pystr \<Rightarrow> int \<Rightarrow> int list \<Rightarrow> resolution \<Rightarrow> calc_details
     \<Rightarrow> DoubleHashTable" where
  "log_search self key i probe_sequence res details =
     (if i > 0
      then self\<lparr>ht_collision_logs := ht_collision_logs self @
             [CollisionLog_init key (py ''SEARCH'') probe_sequence res (Some details)]\<rparr>
      else self)"

fun search_loop ::
  "pystr \<Rightarrow> nat \<Rightarrow> int \<Rightarrow> int list \<Rightarrow> calc_details \<Rightarrow> DoubleHashTable
     \<Rightarrow> py_error + ((Product option \<times> int \<times> int list) \<times> DoubleHashTable)" where
  "search_loop key 0 i probe_sequence details self =
     Inr ((None, - 1, probe_sequence), self)"
| "search_loop key (Suc n) i probe_sequence details self =
     (case probe self key i of
        Inl e \<Rightarrow> Inl e
      | Inr pos \<Rightarrow>
         (case py_index (ht_table self) pos of
            Inl e \<Rightarrow> Inl e
          | Inr j \<Rightarrow>
             (case ht_table self ! j of
                None \<Rightarrow>
                  Inr ((None, - 1, probe_sequence @ [pos]),
                    log_search self key i (probe_sequence @ [pos]) (Search_failed i pos)
                      (step self details i pos Empty None None))
              | Some entry \<Rightarrow>
                  if he_is_deleted entry then
                    search_loop key n (i + 1) (probe_sequence @ [pos])
                      (step self details i pos Deleted None None) self
                  else
                    (case he_product entry of
                       None \<Rightarrow> Inl AttributeError
                     | Some other \<Rightarrow>
                         if ma_san_pham other = key then
                           Inr ((Some other, pos, probe_sequence @ [pos]),
                             log_search self key i (probe_sequence @ [pos]) (Search_found i pos)
                               (step self details i pos Occupied None
                                  (Some (ma_san_pham other))))
                         else
                           search_loop key n (i + 1) (probe_sequence @ [pos])
                             (step self details i pos Occupied None
                                (Some (ma_san_pham other)))
                             self))))"

definition search ::
  "DoubleHashTable \<Rightarrow> pystr
     \<Rightarrow> py_error + ((Product option \<times> int \<times> int list) \<times> DoubleHashTable)" where
  "search self key =
     (case hash1 self key of
        Inl e \<Rightarrow> Inl e
      | Inr h1_value \<Rightarrow>
          search_loop key (nat (ht_size self)) 0 []
            (calculation_details_init self key h1_value) self)"

text \<open>
  \<open>delete\<close> runs \<open>search\<close> (which may append to the log) and then flips the flag of the
  entry found, in place.
\<close>

definition delete ::
  "DoubleHashTable \<Rightarrow> pystr
     \<Rightarrow> py_error + ((bool \<times> message \<times> int list) \<times> DoubleHashTable)" where
  "delete self key =
     (case search self key of
        Inl e \<Rightarrow> Inl e
      | Inr ((product, pos, probe_sequence), self1) \<Rightarrow>
         (case product of
            None \<Rightarrow> Inr ((False, Not_found, probe_sequence), self1)
          | Some _ \<Rightarrow>
             (case py_index (ht_table self1) pos of
                Inl e \<Rightarrow> Inl e
              | Inr j \<Rightarrow>
                 (case ht_table self1 ! j of
                    None \<Rightarrow> Inl AttributeError
                  | Some entry \<Rightarrow>
                      Inr ((True, Deleted_from pos, probe_sequence),
                        self1\<lparr>ht_table := (ht_table self1)
                                 [j := Some (entry\<lparr>he_is_deleted := True\<rparr>)],
                              ht_count := ht_count self1 - 1\<rparr>)))))"

section \<open>Export and import\<close>

text \<open>
  The plain-value form written by \<open>to_dict\<close>. A field that \<open>from_dict\<close> reads with
  \<open>.get\<close> or tests with \<open>in\<close> is optional; \<open>None\<close> in \<open>ed_product\<close> is the value
  \<open>None\<close> under the key, which \<open>to_dict\<close> always writes.
\<close>

record Product_dict =
  pd_ma_san_pham :: pystr
  pd_ten_san_pham :: pystr
  pd_gia :: real
  pd_so_luong :: int
  pd_mo_ta :: pystr

record HashEntry_dict =
  ed_product :: "Product_dict option"
  ed_is_deleted :: "bool option"

record CollisionLog_dict =
  ld_key :: pystr
  ld_operation :: pystr
  ld_probe_sequence :: "int list"
  ld_collision_count :: int
  ld_resolution :: resolution
  ld_calculation_details :: "calc_details option"

record DoubleHashTable_dict =
  dd_size :: int
  dd_count :: int
  dd_collision_count :: int
  dd_collision_logs :: "CollisionLog_dict list option"
  dd_table :: "HashEntry_dict option list"

definition Product_to_dict :: "Product \<Rightarrow> Product_dict" where
  "Product_to_dict p =
     \<lparr>pd_ma_san_pham = ma_san_pham p, pd_ten_san_pham = ten_san_pham p, pd_gia = gia p,
      pd_so_luong = so_luong p, pd_mo_ta = mo_ta p\<rparr>"

definition Product_from_dict :: "Product_dict \<Rightarrow> Product" where
  "Product_from_dict data =
     \<lparr>ma_san_pham = pd_ma_san_pham data, ten_san_pham = pd_ten_san_pham data,
      gia = pd_gia data, so_luong = pd_so_luong data, mo_ta = pd_mo_ta data\<rparr>"

definition HashEntry_to_dict :: "HashEntry \<Rightarrow> HashEntry_dict" where
  "HashEntry_to_dict e =
     \<lparr>ed_product = (case he_product e of None \<Rightarrow> None | Some p \<Rightarrow> Some (Product_to_dict p)),
      ed_is_deleted = Some (he_is_deleted e)\<rparr>"

definition HashEntry_from_dict :: "HashEntry_dict \<Rightarrow> HashEntry" where
  "HashEntry_from_dict data =
     \<lparr>he_product =
        (case ed_product data of None \<Rightarrow> None | Some d \<Rightarrow> Some (Product_from_dict d)),
      he_is_deleted = (case ed_is_deleted data of None \<Rightarrow> False | Some b \<Rightarrow> b)\<rparr>"

definition get_collision_logs :: "DoubleHashTable \<Rightarrow> CollisionLog_dict list" where
  "get_collision_logs self =
     map (\<lambda>lg.
        \<lparr>ld_key = cl_key lg,
         ld_operation = cl_operation lg,
         ld_probe_sequence = cl_probe_sequence lg,
         ld_collision_count = cl_collision_count lg,
         ld_resolution = cl_resolution lg,
         ld_calculation_details = cl_calculation_details lg\<rparr>)
       (ht_collision_logs self)"

definition to_dict :: "DoubleHashTable \<Rightarrow> DoubleHashTable_dict" where
  "to_dict self =
     \<lparr>dd_size = ht_size self,
      dd_count = ht_count self,
      dd_collision_count = ht_collision_count self,
      dd_collision_logs = Some (get_collision_logs self),
      dd_table =
        map (\<lambda>entry. case entry of None \<Rightarrow> None | Some e \<Rightarrow> Some (HashEntry_to_dict e))
          (ht_table self)\<rparr>"

text \<open>
  \<open>from_dict\<close> builds each log entry with the constructor, which recomputes the
  collision count from the probe sequence and ignores the exported one.
\<close>

definition from_dict :: "DoubleHashTable_dict \<Rightarrow> DoubleHashTable" where
  "from_dict data =
     (let ht = DoubleHashTable_init (dd_size data);
          ht = ht\<lparr>ht_count := dd_count data\<rparr>;
          ht = ht\<lparr>ht_collision_count := dd_collision_count data\<rparr>;
          ht = ht\<lparr>ht_table :=
                 map (\<lambda>entry. case entry of None \<Rightarrow> None
                                | Some d \<Rightarrow> Some (HashEntry_from_dict d))
                   (dd_table data)\<rparr>
      in case dd_collision_logs data of
           None \<Rightarrow> ht
         | Some logs \<Rightarrow>
             ht\<lparr>ht_collision_logs :=
                  map (\<lambda>lg. CollisionLog_init (ld_key lg) (ld_operation lg)
                                (ld_probe_sequence lg) (ld_resolution lg)
                                (ld_calculation_details lg))
                    logs\<rparr>)"

section \<open>Sequences of operations\<close>

datatype operation = Insert Product | Search pystr | Delete pystr

definition apply_op :: "DoubleHashTable \<Rightarrow> operation \<Rightarrow> py_error + DoubleHashTable" where
  "apply_op self op =
     (case op of
        Insert product \<Rightarrow> map_sum id snd (insert_ht self product)
      | Search key \<Rightarrow> map_sum id snd (search self key)
      | Delete key \<Rightarrow> map_sum id snd (delete self key))"

text \<open>A raised exception ends the run.\<close>

fun run :: "DoubleHashTable \<Rightarrow> operation list \<Rightarrow> py_error + DoubleHashTable" where
  "run self [] = Inr self"
| "run self (op # ops) =
     (case apply_op self op of Inl e \<Rightarrow> Inl e | Inr self' \<Rightarrow> run self' ops)"

section \<open>Predicates on table states\<close>

text \<open>
  A prime in the words of the specification: an integer above one that no integer
  strictly between one and itself divides.
\<close>

definition prime_number :: "int \<Rightarrow> bool" where
  "prime_number p \<longleftrightarrow> 1 < p \<and> (\<forall>d. 1 < d \<and> d < p \<longrightarrow> \<not> d dvd p)"

text \<open>A slot is live when it holds an entry that is not tombstoned.\<close>

definition is_live :: "HashEntry option \<Rightarrow> bool" where
  "is_live slot = (case slot of None \<Rightarrow> False | Some e \<Rightarrow> \<not> he_is_deleted e)"

definition holds_key :: "HashEntry option \<Rightarrow> pystr \<Rightarrow> bool" where
  "holds_key slot key =
     (case slot of
        None \<Rightarrow> False
      | Some e \<Rightarrow> \<not> he_is_deleted e \<and> map_option ma_san_pham (he_product e) = Some key)"

text \<open>
  What the constructor establishes and every operation keeps: a positive capacity, as
  many slots as the capacity, and a product in every entry.
\<close>

definition well_formed :: "DoubleHashTable \<Rightarrow> bool" where
  "well_formed self \<longleftrightarrow>
     0 < ht_size self \<and> int (length (ht_table self)) = ht_size self \<and>
     list_all (\<lambda>slot. case slot of None \<Rightarrow> True | Some e \<Rightarrow> he_product e \<noteq> None)
       (ht_table self)"

definition live_count :: "DoubleHashTable \<Rightarrow> int" where
  "live_count self = int (length (filter is_live (ht_table self)))"

text \<open>A log entry written by an insert or by a search.\<close>

definition tagged :: "CollisionLog \<Rightarrow> bool" where
  "tagged lg \<longleftrightarrow> cl_operation lg = py ''INSERT'' \<or> cl_operation lg = py ''SEARCH''"

text \<open>
  \<open>appended self t oper key ps\<close>: the log of \<open>t\<close> is the log of \<open>self\<close> followed by one
  entry, for operation \<open>oper\<close> on \<open>key\<close>, that carries the probe sequence \<open>ps\<close> and
  the collision count \<open>len(ps) - 1\<close>.
\<close>

definition appended ::
  "DoubleHashTable \<Rightarrow> DoubleHashTable \<Rightarrow> pystr \<Rightarrow> pystr \<Rightarrow> int list \<Rightarrow> bool" where
  "appended self t oper key ps \<longleftrightarrow>
     ht_collision_logs t \<noteq> [] \<and>
     butlast (ht_collision_logs t) = ht_collision_logs self \<and>
     cl_operation (last (ht_collision_logs t)) = oper \<and>
     cl_key (last (ht_collision_logs t)) = key \<and>
     cl_probe_sequence (last (ht_collision_logs t)) = ps \<and>
     cl_collision_count (last (ht_collision_logs t)) = int (length ps) - 1"

text \<open>The last slot of a probe sequence is empty (never used) in the table.\<close>

definition ended_empty :: "DoubleHashTable \<Rightarrow> int list \<Rightarrow> bool" where
  "ended_empty self ps \<longleftrightarrow> ps \<noteq> [] \<and> ht_table self ! nat (last ps) = None"

text \<open>The invariant of \<open>CollisionLog.__init__\<close>.\<close>

definition log_consistent :: "CollisionLog \<Rightarrow> bool" where
  "log_consistent lg \<longleftrightarrow>
     cl_collision_count lg = int (length (cl_probe_sequence lg)) - 1"

section \<open>Probe walks\<close>

text \<open>
  Names for the parts of a probe walk, used to state what the loops do: the slot index
  of attempt \<open>i\<close>, the slot found there, the first \<open>n\<close> indices from attempt \<open>i\<close> on,
  the slots that make \<open>insert\<close> go on (live, with another key) and those that make
  \<open>search\<close> go on (tombstoned, or live with another key), and the effect on the
  collision counter of a first attempt that went on.
\<close>

definition position :: "DoubleHashTable \<Rightarrow> pystr \<Rightarrow> int \<Rightarrow> int" where
  "position self key i =
     (ascii_sum key mod ht_size self + i * hash2 self key) mod ht_size self"

definition slot_at :: "DoubleHashTable \<Rightarrow> pystr \<Rightarrow> int \<Rightarrow> HashEntry option" where
  "slot_at self key i = ht_table self ! nat (position self key i)"

primrec probes :: "DoubleHashTable \<Rightarrow> pystr \<Rightarrow> int \<Rightarrow> nat \<Rightarrow> int list" where
  "probes self key i 0 = []"
| "probes self key i (Suc n) = position self key i # probes self key (i + 1) n"

definition passes :: "HashEntry option \<Rightarrow> pystr \<Rightarrow> bool" where
  "passes slot key \<longleftrightarrow> is_live slot \<and> \<not> holds_key slot key"

definition continues :: "HashEntry option \<Rightarrow> pystr \<Rightarrow> bool" where
  "continues slot key \<longleftrightarrow> slot \<noteq> None \<and> \<not> holds_key slot key"

definition first_touch :: "DoubleHashTable \<Rightarrow> int \<Rightarrow> nat \<Rightarrow> DoubleHashTable" where
  "first_touch self i k =
     (if i = 0 \<and> 0 < k then self\<lparr>ht_collision_count := ht_collision_count self + 1\<rparr> else self)"

section \<open>Sample data\<close>

definition sample :: "string \<Rightarrow> Product" where
  "sample code =
     \<lparr>ma_san_pham = py code, ten_san_pham = py ''item'', gia = 1000, so_luong = 1,
      mo_ta = []\<rparr>"

text \<open>A table of capacity 5 holding the key A, in slot 0.\<close>

definition single_table :: DoubleHashTable where
  "single_table = projr (run (DoubleHashTable_init 5) [Insert (sample ''A'')])"

text \<open>
  A table of capacity 5 after inserting the keys A and F, which share the first hash:
  F collided with A and landed on its second attempt, so the log has one entry.
\<close>

definition collided_table :: DoubleHashTable where
  "collided_table =
     projr (run (DoubleHashTable_init 5) [Insert (sample ''A''), Insert (sample ''F'')])"

text \<open>
  The same table after deleting F, which is found on the second attempt of its walk.
\<close>

definition after_delete :: DoubleHashTable where
  "after_delete =
     projr (run (DoubleHashTable_init 5)
       [Insert (sample ''A''), Insert (sample ''F''), Delete (py ''F'')])"

text \<open>
  The table holding A and F after deleting A, whose slot 0 is the first of the walk of
  F, and the same table after inserting F once more.
\<close>

definition tombstoned_table :: DoubleHashTable where
  "tombstoned_table =
     projr (run (DoubleHashTable_init 5)
       [Insert (sample ''A''), Insert (sample ''F''), Delete (py ''A'')])"

definition reinserted_table :: DoubleHashTable where
  "reinserted_table =
     projr (run (DoubleHashTable_init 5)
       [Insert (sample ''A''), Insert (sample ''F''), Delete (py ''A''), Insert (sample ''F'')])"


section \<open>Properties of the hash derivation\<close>

subsection \<open>Trial division decides primality\<close>

lemma isqrt_le: "isqrt n * isqrt n \<le> n"
  by (induction n) (auto simp: Let_def)

lemma isqrt_gt: "n < (isqrt n + 1) * (isqrt n + 1)"
  by (induction n) (auto simp: Let_def)

lemma isqrt_greatest: "m * m \<le> n \<Longrightarrow> m \<le> isqrt n"
proof (rule ccontr)
  assume a: "m * m \<le> n" and "\<not> m \<le> isqrt n"
  then have "isqrt n + 1 \<le> m" by arith
  then have "(isqrt n + 1) * (isqrt n + 1) \<le> m * m" by (intro mult_le_mono)
  with isqrt_gt [of n] a show False by simp
qed

lemma isqrt_less: "2 \<le> n \<Longrightarrow> isqrt n < n"
proof (rule ccontr)
  assume n: "2 \<le> n" and "\<not> isqrt n < n"
  then have "n \<le> isqrt n" by arith
  then have "n * n \<le> isqrt n * isqrt n" by (intro mult_le_mono)
  then have "n * n \<le> n" using isqrt_le [of n] by (rule order_trans)
  moreover have "n * 2 \<le> n * n" using n by (intro mult_le_mono2)
  ultimately have "n * 2 \<le> n" by (rule order_trans [rotated])
  with n show False by arith
qed

lemma is_prime_iff: "is_prime num \<longleftrightarrow> prime_number num"
proof
  assume p: "is_prime num"
  then have n2: "2 \<le> num" by (simp add: is_prime_def split: if_splits)
  have trial: "\<And>i. 2 \<le> i \<Longrightarrow> i \<le> int (isqrt (nat num)) \<Longrightarrow> num mod i \<noteq> 0"
    using p n2 by (simp add: is_prime_def list_all_iff)
  have "\<not> d dvd num" if d: "1 < d" "d < num" for d
  proof
    assume dv: "d dvd num"
    then obtain e where e: "num = d * e" by (auto simp: dvd_def)
    have "d * 1 < d * e" using d e by simp
    with d have e1: "1 < e" by (simp only: mult_less_cancel_left_pos)
    define m where "m = min d e"
    have m1: "1 < m" using d e1 by (simp add: m_def)
    have "m * m \<le> d * e" unfolding m_def using d e1
      by (intro mult_mono) auto
    then have "nat (m * m) \<le> nat num" using e by (intro nat_mono) simp
    then have "nat m * nat m \<le> nat num" using m1 by (simp add: nat_mult_distrib)
    then have "nat m \<le> isqrt (nat num)" by (rule isqrt_greatest)
    then have "m \<le> int (isqrt (nat num))" using m1 by simp
    moreover have "m dvd num" using e by (auto simp: m_def min_def)
    ultimately show False using trial [of m] m1 by auto
  qed
  with n2 show "prime_number num" by (simp add: prime_number_def)
next
  assume p: "prime_number num"
  then have n2: "2 \<le> num" by (simp add: prime_number_def)
  have "isqrt (nat num) < nat num" using n2 by (intro isqrt_less) simp
  then have "int (isqrt (nat num)) < num" using n2 by simp
  with p n2 show "is_prime num"
    by (auto simp: is_prime_def prime_number_def list_all_iff mod_eq_0_iff_dvd)
qed

lemma get_prime_None:
  "find is_prime (rev [2 .. n - 1]) = None \<Longrightarrow> get_prime_less_than n = 1 \<and> (\<forall>p. prime_number p \<longrightarrow> \<not> p < n)"
proof
  assume none: "find is_prime (rev [2 .. n - 1]) = None"
  then show "get_prime_less_than n = 1" by (simp add: get_prime_less_than_def)
  show "\<forall>p. prime_number p \<longrightarrow> \<not> p < n"
  proof (intro allI impI notI)
    fix p assume p: "prime_number p" "p < n"
    then have "p \<in> set (rev [2 .. n - 1])" by (simp add: prime_number_def)
    with none p show False by (auto simp: find_None_iff is_prime_iff)
  qed
qed

lemma find_rev_upto:
  "find P (rev [a .. b]) = Some x \<Longrightarrow> P x \<and> a \<le> x \<and> x \<le> b \<and> (\<forall>y. x < y \<and> y \<le> b \<longrightarrow> \<not> P y)"
proof (induction "nat (b - a + 1)" arbitrary: b)
  case 0
  then show ?case by simp
next
  case (Suc k)
  then have ab: "a \<le> b" by simp
  then have u: "[a .. b] = [a .. b - 1] @ [b]" by (simp add: upto_rec2)
  show ?case
  proof (cases "P b")
    case True
    with Suc.prems u ab show ?thesis by auto
  next
    case False
    with Suc.prems u have f: "find P (rev [a .. b - 1]) = Some x" by simp
    have "k = nat (b - 1 - a + 1)" using Suc.hyps(2) by simp
    from Suc.hyps(1) [OF this f] have
      ih: "P x" "a \<le> x" "x \<le> b - 1" "\<forall>y. x < y \<and> y \<le> b - 1 \<longrightarrow> \<not> P y" by auto
    have "\<not> P y" if "x < y" "y \<le> b" for y
    proof (cases "y = b")
      case True with False show ?thesis by simp
    next
      case False with that ih(4) show ?thesis by simp
    qed
    with ih show ?thesis by auto
  qed
qed

lemma get_prime_Some:
  "find is_prime (rev [2 .. n - 1]) = Some r \<Longrightarrow>
   get_prime_less_than n = r \<and> prime_number r \<and> r < n \<and> (\<forall>q. prime_number q \<and> q < n \<longrightarrow> q \<le> r)"
proof -
  assume some: "find is_prime (rev [2 .. n - 1]) = Some r"
  from find_rev_upto [OF some] have
    r: "is_prime r" "2 \<le> r" "r \<le> n - 1" "\<forall>y. r < y \<and> y \<le> n - 1 \<longrightarrow> \<not> is_prime y" by auto
  have "q \<le> r" if "prime_number q" "q < n" for q
  proof (rule ccontr)
    assume "\<not> q \<le> r"
    with that r(4) have "\<not> is_prime q" by simp
    with that show False by (simp add: is_prime_iff)
  qed
  with r some show ?thesis by (simp add: get_prime_less_than_def is_prime_iff)
qed

lemma get_prime_ge1: "1 \<le> get_prime_less_than n"
  by (cases "find is_prime (rev [2 .. n - 1])")
     (auto simp: get_prime_less_than_def dest!: find_rev_upto)

subsection \<open>The two hash functions and the probe position\<close>

lemma hash2_range:
  "1 \<le> hash2 self key \<and> hash2 self key \<le> get_prime_less_than (ht_size self)"
proof -
  have "0 < get_prime_less_than (ht_size self)"
    using get_prime_ge1 [of "ht_size self"] by simp
  then have "0 \<le> ascii_sum key mod get_prime_less_than (ht_size self) \<and>
      ascii_sum key mod get_prime_less_than (ht_size self) < get_prime_less_than (ht_size self)"
    by simp
  then show ?thesis by (simp add: hash2_def Let_def)
qed

lemma probe_value:
  "ht_size self \<noteq> 0 \<Longrightarrow>
   probe self key i = Inr ((ascii_sum key mod ht_size self + i * hash2 self key) mod ht_size self)"
  by (simp add: probe_def hash1_def py_mod_def)

text \<open>
  C4. For a capacity of at least one: \<open>ascii_sum\<close> is the sum of the code points of the
  key; \<open>h1\<close> is that sum modulo the capacity; \<open>R\<close> is the greatest prime below the
  capacity, or 1 when there is none; \<open>h2\<close> is \<open>R - (ascii_sum mod R)\<close> and lies between
  1 and \<open>R\<close>; and the probe position of attempt \<open>i\<close> is \<open>(h1 + i * h2)\<close> modulo the
  capacity. None of these computations raises.
\<close>

theorem hash_derivation:
  "1 \<le> ht_size self \<Longrightarrow>
   ascii_sum key = sum_list (map int key) \<and>
   hash1 self key = Inr (ascii_sum key mod ht_size self) \<and>
   ((get_prime_less_than (ht_size self) = 1 \<and>
       (\<forall>p. prime_number p \<longrightarrow> \<not> p < ht_size self)) \<or>
    (prime_number (get_prime_less_than (ht_size self)) \<and>
       get_prime_less_than (ht_size self) < ht_size self \<and>
       (\<forall>q. prime_number q \<and> q < ht_size self \<longrightarrow> q \<le> get_prime_less_than (ht_size self)))) \<and>
   hash2 self key =
     get_prime_less_than (ht_size self) - ascii_sum key mod get_prime_less_than (ht_size self) \<and>
   1 \<le> hash2 self key \<and> hash2 self key \<le> get_prime_less_than (ht_size self) \<and>
   (\<forall>i\<ge>0. probe self key i =
      Inr ((ascii_sum key mod ht_size self + i * hash2 self key) mod ht_size self))"
proof -
  assume size: "1 \<le> ht_size self"
  have sum: "ascii_sum key = sum_list (map int key)"
    by (simp add: ascii_sum_def ord_def [abs_def])
  have h1: "hash1 self key = Inr (ascii_sum key mod ht_size self)"
    using size by (simp add: hash1_def py_mod_def)
  have r: "(get_prime_less_than (ht_size self) = 1 \<and>
       (\<forall>p. prime_number p \<longrightarrow> \<not> p < ht_size self)) \<or>
    (prime_number (get_prime_less_than (ht_size self)) \<and>
       get_prime_less_than (ht_size self) < ht_size self \<and>
       (\<forall>q. prime_number q \<and> q < ht_size self \<longrightarrow> q \<le> get_prime_less_than (ht_size self)))"
  proof (cases "find is_prime (rev [2 .. ht_size self - 1])")
    case None
    from get_prime_None [OF this] show ?thesis by simp
  next
    case (Some r)
    from get_prime_Some [OF this] show ?thesis by simp
  qed
  have h2: "hash2 self key =
     get_prime_less_than (ht_size self) - ascii_sum key mod get_prime_less_than (ht_size self)"
    by (simp add: hash2_def Let_def)
  have p: "\<forall>i\<ge>0. probe self key i =
      Inr ((ascii_sum key mod ht_size self + i * hash2 self key) mod ht_size self)"
    using size by (simp add: probe_value)
  from sum h1 r h2 hash2_range [of self key] p show ?thesis by blast
qed

theorem hash_derivation_witness:
  "1 \<le> ht_size (DoubleHashTable_init 11) \<and>
   ascii_sum (py ''A1'') = 114 \<and>
   hash1 (DoubleHashTable_init 11) (py ''A1'') = Inr 4 \<and>
   get_prime_less_than 11 = 7 \<and> prime_number 7 \<and>
   hash2 (DoubleHashTable_init 11) (py ''A1'') = 5 \<and>
   probe (DoubleHashTable_init 11) (py ''A1'') 3 = Inr 8"
proof -
  have size: "1 \<le> ht_size (DoubleHashTable_init 11)"
    by (simp add: DoubleHashTable_init_def)
  have sz: "ht_size (DoubleHashTable_init 11) = 11"
    by (simp add: DoubleHashTable_init_def)
  have s: "ascii_sum (py ''A1'') = 114" by code_simp
  have r: "get_prime_less_than 11 = 7" by code_simp
  note d = hash_derivation [OF size, of "py ''A1''", unfolded sz r s]
  from d have "prime_number 7" by simp
  moreover from d have "hash1 (DoubleHashTable_init 11) (py ''A1'') = Inr 4" by simp
  moreover from d have "hash2 (DoubleHashTable_init 11) (py ''A1'') = 5" by simp
  moreover from d have "probe (DoubleHashTable_init 11) (py ''A1'') 3 = Inr 8" by simp
  ultimately show ?thesis using size s r by simp
qed

section \<open>The probe loop of insert\<close>

lemma wf_probe: "well_formed self \<Longrightarrow> probe self key i = Inr (position self key i)"
  by (simp add: well_formed_def probe_value position_def)

lemma wf_position: "well_formed self \<Longrightarrow> 0 \<le> position self key i \<and> position self key i < ht_size self"
  by (simp add: well_formed_def position_def)

lemma wf_index:
  "well_formed self \<Longrightarrow> py_index (ht_table self) (position self key i) = Inr (nat (position self key i))"
  using wf_position [of self key i] by (simp add: py_index_def well_formed_def Let_def)

lemma wf_nat_position: "well_formed self \<Longrightarrow> nat (position self key i) < length (ht_table self)"
  using wf_position [of self key i] by (auto simp: well_formed_def nat_less_iff)

lemma wf_slot_product:
  "well_formed self \<Longrightarrow> slot_at self key i = Some e \<Longrightarrow> \<exists>q. he_product e = Some q"
proof -
  assume wf: "well_formed self" and s: "slot_at self key i = Some e"
  from wf_nat_position [OF wf] have "slot_at self key i \<in> set (ht_table self)"
    by (simp add: slot_at_def)
  with wf s show ?thesis by (auto simp: well_formed_def list_all_iff)
qed

lemma position_cc [simp]:
  "position (self\<lparr>ht_collision_count := c\<rparr>) key i = position self key i"
  by (simp add: position_def hash2_def)

lemma slot_at_cc [simp]:
  "slot_at (self\<lparr>ht_collision_count := c\<rparr>) key i = slot_at self key i"
  by (simp add: slot_at_def)

lemma probes_cc [simp]:
  "probes (self\<lparr>ht_collision_count := c\<rparr>) key i n = probes self key i n"
  by (induction n arbitrary: i) simp_all

lemma well_formed_cc [simp]:
  "well_formed (self\<lparr>ht_collision_count := c\<rparr>) = well_formed self"
  by (simp add: well_formed_def)

lemma position_first_touch [simp]:
  "position (first_touch self j k) key i = position self key i"
  by (simp add: first_touch_def)

lemma slot_at_first_touch [simp]:
  "slot_at (first_touch self j k) key i = slot_at self key i"
  by (simp add: first_touch_def)

lemma probes_first_touch [simp]:
  "probes (first_touch self j k) key i n = probes self key i n"
  by (simp add: first_touch_def)

lemma well_formed_first_touch [simp]:
  "well_formed (first_touch self j k) = well_formed self"
  by (simp add: first_touch_def)

lemma first_touch_next:
  "0 \<le> i \<Longrightarrow> first_touch (first_touch self i (Suc 0)) (i + 1) k = first_touch self i (Suc k)"
  by (simp add: first_touch_def)

lemma first_touch_0 [simp]: "first_touch self i 0 = self"
  by (simp add: first_touch_def)

lemma insert_step_land:
  assumes "well_formed self" "\<not> is_live (slot_at self (ma_san_pham p) i)"
  shows "\<exists>d'. insert_loop p (Suc n) i ps d self =
     Inr ((True, Inserted_at (position self (ma_san_pham p) i), ps @ [position self (ma_san_pham p) i]),
       place self p i (position self (ma_san_pham p) i) (nat (position self (ma_san_pham p) i))
         (ps @ [position self (ma_san_pham p) i]) d')"
  using assms
  by (auto simp: wf_probe wf_index is_live_def slot_at_def split: option.splits)

lemma insert_step_dup:
  assumes "well_formed self" "holds_key (slot_at self (ma_san_pham p) i) (ma_san_pham p)"
  shows "insert_loop p (Suc n) i ps d self =
     Inr ((False, Already_exists, ps @ [position self (ma_san_pham p) i]), self)"
  using assms
  by (auto simp: wf_probe wf_index holds_key_def slot_at_def split: option.splits)

lemma insert_step_next:
  assumes "well_formed self" "passes (slot_at self (ma_san_pham p) i) (ma_san_pham p)"
  shows "\<exists>d'. insert_loop p (Suc n) i ps d self =
     insert_loop p n (i + 1) (ps @ [position self (ma_san_pham p) i]) d'
       (first_touch self i 1)"
proof -
  from assms(2) obtain e where e: "slot_at self (ma_san_pham p) i = Some e" "\<not> he_is_deleted e"
    by (auto simp: passes_def is_live_def split: option.splits)
  from wf_slot_product [OF assms(1) e(1)] obtain q where q: "he_product e = Some q" by blast
  with assms(2) e have "ma_san_pham q \<noteq> ma_san_pham p"
    by (simp add: passes_def holds_key_def)
  with e q assms(1) show ?thesis
    by (auto simp: wf_probe wf_index first_touch_def slot_at_def [symmetric])
qed

lemma insert_loop_lands:
  assumes "well_formed self" "0 \<le> i" "k < n"
    and "\<forall>m<k. passes (slot_at self (ma_san_pham p) (i + int m)) (ma_san_pham p)"
    and "\<not> is_live (slot_at self (ma_san_pham p) (i + int k))"
  shows "\<exists>d'. insert_loop p n i ps d self =
     Inr ((True, Inserted_at (position self (ma_san_pham p) (i + int k)),
           ps @ probes self (ma_san_pham p) i (Suc k)),
       place (first_touch self i k) p (i + int k) (position self (ma_san_pham p) (i + int k))
         (nat (position self (ma_san_pham p) (i + int k)))
         (ps @ probes self (ma_san_pham p) i (Suc k)) d')"
  using assms
proof (induction k arbitrary: n i ps d self)
  case 0
  then obtain n' where n: "n = Suc n'" by (cases n) auto
  from 0 insert_step_land [of self p i n' ps d] show ?case
    by (simp add: n)
next
  case (Suc k)
  then obtain n' where n: "n = Suc n'" "k < n'" by (cases n) auto
  from Suc.prems(4) have p0: "passes (slot_at self (ma_san_pham p) i) (ma_san_pham p)"
    by force
  from insert_step_next [OF Suc.prems(1) p0, of n' ps d] obtain d1 where
    step: "insert_loop p (Suc n') i ps d self =
      insert_loop p n' (i + 1) (ps @ [position self (ma_san_pham p) i]) d1 (first_touch self i 1)"
    by blast
  have wf1: "well_formed (first_touch self i 1)" using Suc.prems(1) by simp
  have i1: "0 \<le> i + 1" using Suc.prems(2) by simp
  have pass1: "\<forall>m<k. passes (slot_at (first_touch self i 1) (ma_san_pham p) (i + 1 + int m))
      (ma_san_pham p)"
  proof (intro allI impI)
    fix m assume "m < k"
    then have "Suc m < Suc k" by simp
    with Suc.prems(4) have "passes (slot_at self (ma_san_pham p) (i + int (Suc m))) (ma_san_pham p)"
      by blast
    then show "passes (slot_at (first_touch self i 1) (ma_san_pham p) (i + 1 + int m))
      (ma_san_pham p)" by (simp add: add.commute add.left_commute)
  qed
  have land1: "\<not> is_live (slot_at (first_touch self i 1) (ma_san_pham p) (i + 1 + int k))"
    using Suc.prems(5) by (simp add: add.commute add.left_commute)
  from Suc.IH [OF wf1 i1 n(2) pass1 land1, of "ps @ [position self (ma_san_pham p) i]" d1]
  obtain d' where "insert_loop p n' (i + 1) (ps @ [position self (ma_san_pham p) i]) d1
       (first_touch self i 1) =
     Inr ((True, Inserted_at (position self (ma_san_pham p) (i + 1 + int k)),
           (ps @ [position self (ma_san_pham p) i]) @ probes self (ma_san_pham p) (i + 1) (Suc k)),
       place (first_touch self i (Suc k)) p (i + 1 + int k)
         (position self (ma_san_pham p) (i + 1 + int k))
         (nat (position self (ma_san_pham p) (i + 1 + int k)))
         ((ps @ [position self (ma_san_pham p) i]) @ probes self (ma_san_pham p) (i + 1) (Suc k)) d')"
    by (auto simp: first_touch_next [OF Suc.prems(2)])
  with step n have "insert_loop p n i ps d self =
     Inr ((True, Inserted_at (position self (ma_san_pham p) (i + int (Suc k))),
           ps @ probes self (ma_san_pham p) i (Suc (Suc k))),
       place (first_touch self i (Suc k)) p (i + int (Suc k))
         (position self (ma_san_pham p) (i + int (Suc k)))
         (nat (position self (ma_san_pham p) (i + int (Suc k))))
         (ps @ probes self (ma_san_pham p) i (Suc (Suc k))) d')"
    by (simp add: add.commute add.left_commute)
  then show ?case by blast
qed

lemma insert_loop_duplicate:
  assumes "well_formed self" "0 \<le> i" "k < n"
    and "\<forall>m<k. passes (slot_at self (ma_san_pham p) (i + int m)) (ma_san_pham p)"
    and "holds_key (slot_at self (ma_san_pham p) (i + int k)) (ma_san_pham p)"
  shows "insert_loop p n i ps d self =
     Inr ((False, Already_exists, ps @ probes self (ma_san_pham p) i (Suc k)),
       first_touch self i k)"
  using assms
proof (induction k arbitrary: n i ps d self)
  case 0
  then obtain n' where n: "n = Suc n'" by (cases n) auto
  from 0 insert_step_dup [of self p i n' ps d] show ?case
    by (simp add: n)
next
  case (Suc k)
  then obtain n' where n: "n = Suc n'" "k < n'" by (cases n) auto
  from Suc.prems(4) have p0: "passes (slot_at self (ma_san_pham p) i) (ma_san_pham p)"
    by force
  from insert_step_next [OF Suc.prems(1) p0, of n' ps d] obtain d1 where
    step: "insert_loop p (Suc n') i ps d self =
      insert_loop p n' (i + 1) (ps @ [position self (ma_san_pham p) i]) d1 (first_touch self i 1)"
    by blast
  have wf1: "well_formed (first_touch self i 1)" using Suc.prems(1) by simp
  have i1: "0 \<le> i + 1" using Suc.prems(2) by simp
  have pass1: "\<forall>m<k. passes (slot_at (first_touch self i 1) (ma_san_pham p) (i + 1 + int m))
      (ma_san_pham p)"
  proof (intro allI impI)
    fix m assume "m < k"
    then have "Suc m < Suc k" by simp
    with Suc.prems(4) have "passes (slot_at self (ma_san_pham p) (i + int (Suc m))) (ma_san_pham p)"
      by blast
    then show "passes (slot_at (first_touch self i 1) (ma_san_pham p) (i + 1 + int m))
      (ma_san_pham p)" by (simp add: add.commute add.left_commute)
  qed
  have dup1: "holds_key (slot_at (first_touch self i 1) (ma_san_pham p) (i + 1 + int k))
      (ma_san_pham p)"
    using Suc.prems(5) by (simp add: add.commute add.left_commute)
  from Suc.IH [OF wf1 i1 n(2) pass1 dup1, of "ps @ [position self (ma_san_pham p) i]" d1]
  have "insert_loop p n' (i + 1) (ps @ [position self (ma_san_pham p) i]) d1
       (first_touch self i 1) =
     Inr ((False, Already_exists,
           (ps @ [position self (ma_san_pham p) i]) @ probes self (ma_san_pham p) (i + 1) (Suc k)),
       first_touch self i (Suc k))"
    by (simp add: first_touch_next [OF Suc.prems(2)])
  with step n show ?case by simp
qed

lemma insert_loop_exhausted:
  assumes "well_formed self" "0 \<le> i"
    and "\<forall>m<n. passes (slot_at self (ma_san_pham p) (i + int m)) (ma_san_pham p)"
  shows "insert_loop p n i ps d self =
     Inr ((False, Could_not_insert, ps @ probes self (ma_san_pham p) i n), first_touch self i n)"
  using assms
proof (induction n arbitrary: i ps d self)
  case 0
  then show ?case by simp
next
  case (Suc n)
  from Suc.prems(3) have p0: "passes (slot_at self (ma_san_pham p) i) (ma_san_pham p)"
    by force
  from insert_step_next [OF Suc.prems(1) p0, of n ps d] obtain d1 where
    step: "insert_loop p (Suc n) i ps d self =
      insert_loop p n (i + 1) (ps @ [position self (ma_san_pham p) i]) d1 (first_touch self i 1)"
    by blast
  have wf1: "well_formed (first_touch self i 1)" using Suc.prems(1) by simp
  have i1: "0 \<le> i + 1" using Suc.prems(2) by simp
  have pass1: "\<forall>m<n. passes (slot_at (first_touch self i 1) (ma_san_pham p) (i + 1 + int m))
      (ma_san_pham p)"
  proof (intro allI impI)
    fix m assume "m < n"
    then have "Suc m < Suc n" by simp
    with Suc.prems(3) have "passes (slot_at self (ma_san_pham p) (i + int (Suc m))) (ma_san_pham p)"
      by blast
    then show "passes (slot_at (first_touch self i 1) (ma_san_pham p) (i + 1 + int m))
      (ma_san_pham p)" by (simp add: add.commute add.left_commute)
  qed
  from Suc.IH [OF wf1 i1 pass1, of "ps @ [position self (ma_san_pham p) i]" d1]
  have "insert_loop p n (i + 1) (ps @ [position self (ma_san_pham p) i]) d1
       (first_touch self i 1) =
     Inr ((False, Could_not_insert,
           (ps @ [position self (ma_san_pham p) i]) @ probes self (ma_san_pham p) (i + 1) n),
       first_touch self i (Suc n))"
    by (simp add: first_touch_next [OF Suc.prems(2)])
  with step show ?case by simp
qed

text \<open>Where a walk of \<open>n\<close> attempts stops: at the first attempt that does not pass.\<close>

lemma first_stop:
  "(\<forall>m<n. P m) \<or> (\<exists>k<n. \<not> P k \<and> (\<forall>m<k. P m))" for P :: "nat \<Rightarrow> bool"
proof (cases "\<forall>m<n. P m")
  case True
  then show ?thesis by simp
next
  case False
  then obtain j where j: "j < n" "\<not> P j" by blast
  define k where "k = (LEAST k. \<not> P k)"
  have "\<not> P k" unfolding k_def using j(2) by (rule LeastI)
  moreover have "k \<le> j" unfolding k_def using j(2) by (rule Least_le)
  moreover have "\<forall>m<k. P m" unfolding k_def using not_less_Least by blast
  ultimately have "k < n \<and> \<not> P k \<and> (\<forall>m<k. P m)" using j(1) by simp
  then show ?thesis by blast
qed

lemma not_passes: "\<not> passes slot key \<longleftrightarrow> \<not> is_live slot \<or> holds_key slot key"
  by (auto simp: passes_def)

section \<open>The probe loop of search\<close>

lemma search_step_empty:
  assumes "well_formed self" "slot_at self key i = None"
  shows "\<exists>d'. search_loop key (Suc n) i ps d self =
     Inr ((None, - 1, ps @ [position self key i]),
       log_search self key i (ps @ [position self key i])
         (Search_failed i (position self key i)) d')"
  using assms by (auto simp: wf_probe wf_index slot_at_def [symmetric])

lemma search_step_found:
  assumes "well_formed self" "holds_key (slot_at self key i) key"
  shows "\<exists>d'. search_loop key (Suc n) i ps d self =
     Inr ((Option.bind (slot_at self key i) he_product, position self key i,
           ps @ [position self key i]),
       log_search self key i (ps @ [position self key i])
         (Search_found i (position self key i)) d')"
  using assms
  by (auto simp: wf_probe wf_index holds_key_def slot_at_def [symmetric] split: option.splits)

lemma search_step_next:
  assumes "well_formed self" "continues (slot_at self key i) key"
  shows "\<exists>d'. search_loop key (Suc n) i ps d self =
     search_loop key n (i + 1) (ps @ [position self key i]) d' self"
proof -
  from assms(2) obtain e where e: "slot_at self key i = Some e"
    by (auto simp: continues_def)
  from wf_slot_product [OF assms(1) e] obtain q where q: "he_product e = Some q" by blast
  with assms(2) e have "he_is_deleted e \<or> ma_san_pham q \<noteq> key"
    by (auto simp: continues_def holds_key_def)
  with e q assms(1) show ?thesis
    by (auto simp: wf_probe wf_index slot_at_def [symmetric])
qed

lemma search_loop_found:
  assumes "well_formed self" "k < n"
    and "\<forall>m<k. continues (slot_at self key (i + int m)) key"
    and "holds_key (slot_at self key (i + int k)) key"
  shows "\<exists>d'. search_loop key n i ps d self =
     Inr ((Option.bind (slot_at self key (i + int k)) he_product, position self key (i + int k),
           ps @ probes self key i (Suc k)),
       log_search self key (i + int k) (ps @ probes self key i (Suc k))
         (Search_found (i + int k) (position self key (i + int k))) d')"
  using assms
proof (induction k arbitrary: n i ps d)
  case 0
  then obtain n' where n: "n = Suc n'" by (cases n) auto
  from 0 search_step_found [of self key i n' ps d] show ?case
    by (simp add: n)
next
  case (Suc k)
  then obtain n' where n: "n = Suc n'" "k < n'" by (cases n) auto
  from Suc.prems(3) have p0: "continues (slot_at self key i) key"
    by force
  from search_step_next [OF Suc.prems(1) p0, of n' ps d] obtain d1 where
    step: "search_loop key (Suc n') i ps d self =
      search_loop key n' (i + 1) (ps @ [position self key i]) d1 self"
    by blast
  have pass1: "\<forall>m<k. continues (slot_at self key (i + 1 + int m)) key"
  proof (intro allI impI)
    fix m assume "m < k"
    then have "Suc m < Suc k" by simp
    with Suc.prems(3) have "continues (slot_at self key (i + int (Suc m))) key"
      by blast
    then show "continues (slot_at self key (i + 1 + int m)) key"
      by (simp add: add.commute add.left_commute)
  qed
  have stop1: "holds_key (slot_at self key (i + 1 + int k)) key"
    using Suc.prems(4) by (simp add: add.commute add.left_commute)
  from Suc.IH [OF Suc.prems(1) n(2) pass1 stop1, of "ps @ [position self key i]" d1]
  obtain d' where "search_loop key n' (i + 1) (ps @ [position self key i]) d1 self =
     Inr ((Option.bind (slot_at self key (i + 1 + int k)) he_product,
           position self key (i + 1 + int k),
           (ps @ [position self key i]) @ probes self key (i + 1) (Suc k)),
       log_search self key (i + 1 + int k)
         ((ps @ [position self key i]) @ probes self key (i + 1) (Suc k))
         (Search_found (i + 1 + int k) (position self key (i + 1 + int k))) d')"
    by blast
  with step n have "search_loop key n i ps d self =
     Inr ((Option.bind (slot_at self key (i + int (Suc k))) he_product,
           position self key (i + int (Suc k)),
           ps @ probes self key i (Suc (Suc k))),
       log_search self key (i + int (Suc k)) (ps @ probes self key i (Suc (Suc k)))
         (Search_found (i + int (Suc k)) (position self key (i + int (Suc k)))) d')"
    by (simp add: add.commute add.left_commute)
  then show ?case by blast
qed

lemma search_loop_empty:
  assumes "well_formed self" "k < n"
    and "\<forall>m<k. continues (slot_at self key (i + int m)) key"
    and "slot_at self key (i + int k) = None"
  shows "\<exists>d'. search_loop key n i ps d self =
     Inr ((None, - 1, ps @ probes self key i (Suc k)),
       log_search self key (i + int k) (ps @ probes self key i (Suc k))
         (Search_failed (i + int k) (position self key (i + int k))) d')"
  using assms
proof (induction k arbitrary: n i ps d)
  case 0
  then obtain n' where n: "n = Suc n'" by (cases n) auto
  from 0 search_step_empty [of self key i n' ps d] show ?case
    by (simp add: n)
next
  case (Suc k)
  then obtain n' where n: "n = Suc n'" "k < n'" by (cases n) auto
  from Suc.prems(3) have p0: "continues (slot_at self key i) key"
    by force
  from search_step_next [OF Suc.prems(1) p0, of n' ps d] obtain d1 where
    step: "search_loop key (Suc n') i ps d self =
      search_loop key n' (i + 1) (ps @ [position self key i]) d1 self"
    by blast
  have pass1: "\<forall>m<k. continues (slot_at self key (i + 1 + int m)) key"
  proof (intro allI impI)
    fix m assume "m < k"
    then have "Suc m < Suc k" by simp
    with Suc.prems(3) have "continues (slot_at self key (i + int (Suc m))) key"
      by blast
    then show "continues (slot_at self key (i + 1 + int m)) key"
      by (simp add: add.commute add.left_commute)
  qed
  have stop1: "slot_at self key (i + 1 + int k) = None"
    using Suc.prems(4) by (simp add: add.commute add.left_commute)
  from Suc.IH [OF Suc.prems(1) n(2) pass1 stop1, of "ps @ [position self key i]" d1]
  obtain d' where "search_loop key n' (i + 1) (ps @ [position self key i]) d1 self =
     Inr ((None, - 1, (ps @ [position self key i]) @ probes self key (i + 1) (Suc k)),
       log_search self key (i + 1 + int k)
         ((ps @ [position self key i]) @ probes self key (i + 1) (Suc k))
         (Search_failed (i + 1 + int k) (position self key (i + 1 + int k))) d')"
    by blast
  with step n have "search_loop key n i ps d self =
     Inr ((None, - 1, ps @ probes self key i (Suc (Suc k))),
       log_search self key (i + int (Suc k)) (ps @ probes self key i (Suc (Suc k)))
         (Search_failed (i + int (Suc k)) (position self key (i + int (Suc k)))) d')"
    by (simp add: add.commute add.left_commute)
  then show ?case by blast
qed

lemma search_loop_exhausted:
  assumes "well_formed self"
    and "\<forall>m<n. continues (slot_at self key (i + int m)) key"
  shows "search_loop key n i ps d self = Inr ((None, - 1, ps @ probes self key i n), self)"
  using assms
proof (induction n arbitrary: i ps d)
  case 0
  then show ?case by simp
next
  case (Suc n)
  from Suc.prems(2) have p0: "continues (slot_at self key i) key"
    by force
  from search_step_next [OF Suc.prems(1) p0, of n ps d] obtain d1 where
    step: "search_loop key (Suc n) i ps d self =
      search_loop key n (i + 1) (ps @ [position self key i]) d1 self"
    by blast
  have pass1: "\<forall>m<n. continues (slot_at self key (i + 1 + int m)) key"
  proof (intro allI impI)
    fix m assume "m < n"
    then have "Suc m < Suc n" by simp
    with Suc.prems(2) have "continues (slot_at self key (i + int (Suc m))) key"
      by blast
    then show "continues (slot_at self key (i + 1 + int m)) key"
      by (simp add: add.commute add.left_commute)
  qed
  from Suc.IH [OF Suc.prems(1) pass1, of "ps @ [position self key i]" d1] step
  show ?case by simp
qed

lemma not_continues: "\<not> continues slot key \<longleftrightarrow> slot = None \<or> holds_key slot key"
  by (auto simp: continues_def)

section \<open>The outcomes of insert and search on a well-formed table\<close>

lemma insert_cases:
  assumes wf: "well_formed self" and room: "ht_count self < ht_size self"
    and key_def: "key = ma_san_pham p" and n_def: "n = nat (ht_size self)"
  shows
   "(\<exists>k<n. (\<forall>m<k. passes (slot_at self key (int m)) key) \<and>
        \<not> is_live (slot_at self key (int k)) \<and>
        (\<exists>d'. insert_ht self p =
           Inr ((True, Inserted_at (position self key (int k)), probes self key 0 (Suc k)),
             place (first_touch self 0 k) p (int k) (position self key (int k))
               (nat (position self key (int k))) (probes self key 0 (Suc k)) d'))) \<or>
    (\<exists>k<n. (\<forall>m<k. passes (slot_at self key (int m)) key) \<and>
        holds_key (slot_at self key (int k)) key \<and>
        insert_ht self p =
          Inr ((False, Already_exists, probes self key 0 (Suc k)), first_touch self 0 k)) \<or>
    ((\<forall>m<n. passes (slot_at self key (int m)) key) \<and>
        insert_ht self p =
          Inr ((False, Could_not_insert, probes self key 0 n), first_touch self 0 n))"
proof -
  from wf have h1: "hash1 self key = Inr (ascii_sum key mod ht_size self)"
    by (simp add: hash1_def py_mod_def well_formed_def)
  define d where "d = calculation_details_init self key (ascii_sum key mod ht_size self)"
  have ins: "insert_ht self p = insert_loop p n 0 [] d self"
    using room h1 by (simp add: insert_ht_def key_def n_def d_def Let_def)
  from first_stop [of n "\<lambda>m. passes (slot_at self key (int m)) key"]
  consider (exhausted) "\<forall>m<n. passes (slot_at self key (int m)) key"
    | (stop) k where "k < n" "\<not> passes (slot_at self key (int k)) key"
        "\<forall>m<k. passes (slot_at self key (int m)) key"
    by blast
  then show ?thesis
  proof cases
    case exhausted
    with insert_loop_exhausted [OF wf, of 0 n p "[]" d] ins show ?thesis
      by (simp add: key_def)
  next
    case stop
    from stop(2) consider "\<not> is_live (slot_at self key (int k))"
      | "holds_key (slot_at self key (int k)) key"
      by (auto simp: not_passes)
    then show ?thesis
    proof cases
      case 1
      with insert_loop_lands [OF wf _ stop(1), of 0 p "[]" d] stop ins show ?thesis
        by (simp add: key_def) blast
    next
      case 2
      with insert_loop_duplicate [OF wf _ stop(1), of 0 p "[]" d] stop ins show ?thesis
        by (simp add: key_def) blast
    qed
  qed
qed

lemma search_cases:
  assumes wf: "well_formed self" and n_def: "n = nat (ht_size self)"
  shows
   "(\<exists>k<n. (\<forall>m<k. continues (slot_at self key (int m)) key) \<and>
        holds_key (slot_at self key (int k)) key \<and>
        (\<exists>d'. search self key =
           Inr ((Option.bind (slot_at self key (int k)) he_product, position self key (int k),
                 probes self key 0 (Suc k)),
             log_search self key (int k) (probes self key 0 (Suc k))
               (Search_found (int k) (position self key (int k))) d'))) \<or>
    (\<exists>k<n. (\<forall>m<k. continues (slot_at self key (int m)) key) \<and>
        slot_at self key (int k) = None \<and>
        (\<exists>d'. search self key =
           Inr ((None, - 1, probes self key 0 (Suc k)),
             log_search self key (int k) (probes self key 0 (Suc k))
               (Search_failed (int k) (position self key (int k))) d'))) \<or>
    ((\<forall>m<n. continues (slot_at self key (int m)) key) \<and>
        search self key = Inr ((None, - 1, probes self key 0 n), self))"
proof -
  from wf have h1: "hash1 self key = Inr (ascii_sum key mod ht_size self)"
    by (simp add: hash1_def py_mod_def well_formed_def)
  define d where "d = calculation_details_init self key (ascii_sum key mod ht_size self)"
  have srch: "search self key = search_loop key n 0 [] d self"
    using h1 by (simp add: search_def n_def d_def)
  from first_stop [of n "\<lambda>m. continues (slot_at self key (int m)) key"]
  consider (exhausted) "\<forall>m<n. continues (slot_at self key (int m)) key"
    | (stop) k where "k < n" "\<not> continues (slot_at self key (int k)) key"
        "\<forall>m<k. continues (slot_at self key (int m)) key"
    by blast
  then show ?thesis
  proof cases
    case exhausted
    with search_loop_exhausted [OF wf, of n key 0 "[]" d] srch show ?thesis
      by simp
  next
    case stop
    from stop(2) consider "slot_at self key (int k) = None"
      | "holds_key (slot_at self key (int k)) key"
      by (auto simp: not_continues)
    then show ?thesis
    proof cases
      case 1
      with search_loop_empty [OF wf stop(1), of key 0 "[]" d] stop srch show ?thesis
        by simp blast
    next
      case 2
      with search_loop_found [OF wf stop(1), of key 0 "[]" d] stop srch show ?thesis
        by simp blast
    qed
  qed
qed

section \<open>Effects of the operations on a well-formed table\<close>

lemma insert_outcome:
  assumes "well_formed self" "ht_count self < ht_size self"
  obtains
    (landed) k d' where "k < nat (ht_size self)"
      "\<forall>m<k. passes (slot_at self (ma_san_pham p) (int m)) (ma_san_pham p)"
      "\<not> is_live (slot_at self (ma_san_pham p) (int k))"
      "insert_ht self p =
         Inr ((True, Inserted_at (position self (ma_san_pham p) (int k)),
               probes self (ma_san_pham p) 0 (Suc k)),
           place (first_touch self 0 k) p (int k) (position self (ma_san_pham p) (int k))
             (nat (position self (ma_san_pham p) (int k)))
             (probes self (ma_san_pham p) 0 (Suc k)) d')"
  | (duplicate) k where "k < nat (ht_size self)"
      "\<forall>m<k. passes (slot_at self (ma_san_pham p) (int m)) (ma_san_pham p)"
      "holds_key (slot_at self (ma_san_pham p) (int k)) (ma_san_pham p)"
      "insert_ht self p =
         Inr ((False, Already_exists, probes self (ma_san_pham p) 0 (Suc k)),
           first_touch self 0 k)"
  | (exhausted)
      "\<forall>m<nat (ht_size self). passes (slot_at self (ma_san_pham p) (int m)) (ma_san_pham p)"
      "insert_ht self p =
         Inr ((False, Could_not_insert, probes self (ma_san_pham p) 0 (nat (ht_size self))),
           first_touch self 0 (nat (ht_size self)))"
  using insert_cases [OF assms refl refl, of p] by blast

lemma search_outcome:
  assumes "well_formed self"
  obtains
    (found) k d' where "k < nat (ht_size self)"
      "\<forall>m<k. continues (slot_at self key (int m)) key"
      "holds_key (slot_at self key (int k)) key"
      "search self key =
         Inr ((Option.bind (slot_at self key (int k)) he_product, position self key (int k),
               probes self key 0 (Suc k)),
           log_search self key (int k) (probes self key 0 (Suc k))
             (Search_found (int k) (position self key (int k))) d')"
  | (empty) k d' where "k < nat (ht_size self)"
      "\<forall>m<k. continues (slot_at self key (int m)) key"
      "slot_at self key (int k) = None"
      "search self key =
         Inr ((None, - 1, probes self key 0 (Suc k)),
           log_search self key (int k) (probes self key 0 (Suc k))
             (Search_failed (int k) (position self key (int k))) d')"
  | (exhausted)
      "\<forall>m<nat (ht_size self). continues (slot_at self key (int m)) key"
      "search self key = Inr ((None, - 1, probes self key 0 (nat (ht_size self))), self)"
  using search_cases [OF assms refl, of key] by blast

lemma place_fields [simp]:
  "ht_size (place t p i pos j ps d) = ht_size t"
  "ht_count (place t p i pos j ps d) = ht_count t + 1"
  "ht_table (place t p i pos j ps d) =
     (ht_table t)[j := Some \<lparr>he_product = Some p, he_is_deleted = False\<rparr>]"
  "ht_collision_count (place t p i pos j ps d) =
     (if 0 < i then ht_collision_count t + 1 else ht_collision_count t)"
  "ht_collision_logs (place t p i pos j ps d) =
     (if 0 < i
      then ht_collision_logs t @
        [CollisionLog_init (ma_san_pham p) (py ''INSERT'') ps (Insert_resolved i pos) (Some d)]
      else ht_collision_logs t)"
  by (simp_all add: place_def Let_def)

lemma first_touch_fields [simp]:
  "ht_size (first_touch t i k) = ht_size t"
  "ht_count (first_touch t i k) = ht_count t"
  "ht_table (first_touch t i k) = ht_table t"
  "ht_collision_logs (first_touch t i k) = ht_collision_logs t"
  "ht_collision_count (first_touch t i k) =
     (if i = 0 \<and> 0 < k then ht_collision_count t + 1 else ht_collision_count t)"
  by (simp_all add: first_touch_def)

lemma log_search_fields [simp]:
  "ht_size (log_search t key i ps r d) = ht_size t"
  "ht_count (log_search t key i ps r d) = ht_count t"
  "ht_table (log_search t key i ps r d) = ht_table t"
  "ht_collision_count (log_search t key i ps r d) = ht_collision_count t"
  "ht_collision_logs (log_search t key i ps r d) =
     (if 0 < i
      then ht_collision_logs t @ [CollisionLog_init key (py ''SEARCH'') ps r (Some d)]
      else ht_collision_logs t)"
  by (simp_all add: log_search_def)

lemma CollisionLog_init_fields [simp]:
  "cl_key (CollisionLog_init key oper ps r d) = key"
  "cl_operation (CollisionLog_init key oper ps r d) = oper"
  "cl_probe_sequence (CollisionLog_init key oper ps r d) = ps"
  "cl_resolution (CollisionLog_init key oper ps r d) = r"
  "cl_collision_count (CollisionLog_init key oper ps r d) = int (length ps) - 1"
  by (simp_all add: CollisionLog_init_def)

lemma length_probes [simp]: "length (probes self key i n) = n"
  by (induction n arbitrary: i) simp_all

lemma last_probes: "last (probes self key i (Suc n)) = position self key (i + int n)"
proof (induction n arbitrary: i)
  case 0
  then show ?case by simp
next
  case (Suc n)
  have "length (probes self key (i + 1) (Suc n)) = Suc n" by (rule length_probes)
  then have "probes self key (i + 1) (Suc n) \<noteq> []" by (metis length_0_conv nat.distinct(1))
  then have "last (position self key i # probes self key (i + 1) (Suc n)) =
      last (probes self key (i + 1) (Suc n))" by (rule last_ConsR)
  with Suc [of "i + 1"] have "last (position self key i # probes self key (i + 1) (Suc n)) =
      position self key (i + 1 + int n)" by simp
  then show ?case by (simp add: add.commute add.left_commute)
qed

lemma well_formed_place:
  "well_formed t \<Longrightarrow> well_formed (place t p i pos j ps d)"
  by (auto simp: well_formed_def list_all_iff dest!: set_update_subset_insert [THEN subsetD])

lemma well_formed_log_search [simp]:
  "well_formed (log_search t key i ps r d) = well_formed t"
  by (simp add: well_formed_def)

lemma insert_well_formed:
  assumes "well_formed self" "insert_ht self p = Inr (r, t)"
  shows "well_formed t"
proof (cases "ht_count self < ht_size self")
  case False
  with assms show ?thesis by (simp add: insert_ht_def)
next
  case True
  from assms(1) True show ?thesis
    by (cases rule: insert_outcome [of self p]) (use assms in \<open>auto simp: well_formed_place\<close>)
qed

lemma insert_total:
  assumes "well_formed self"
  shows "\<exists>r t. insert_ht self p = Inr (r, t)"
proof (cases "ht_count self < ht_size self")
  case False
  then show ?thesis by (auto simp: insert_ht_def)
next
  case True
  from assms True show ?thesis
    by (cases rule: insert_outcome [of self p]) auto
qed

lemma search_well_formed:
  assumes "well_formed self" "search self key = Inr (r, t)"
  shows "well_formed t"
  using assms(1) by (cases rule: search_outcome [of self key]) (use assms in auto)

lemma search_total:
  assumes "well_formed self"
  shows "\<exists>r t. search self key = Inr (r, t)"
  using assms by (cases rule: search_outcome [of self key]) auto

lemma delete_outcome:
  assumes "well_formed self"
  obtains
    (deleted) k d' e where "k < nat (ht_size self)"
      "\<forall>m<k. continues (slot_at self key (int m)) key"
      "slot_at self key (int k) = Some e" "holds_key (Some e) key"
      "delete self key =
         Inr ((True, Deleted_from (position self key (int k)), probes self key 0 (Suc k)),
           (log_search self key (int k) (probes self key 0 (Suc k))
              (Search_found (int k) (position self key (int k))) d')
           \<lparr>ht_table := (ht_table self)
               [nat (position self key (int k)) := Some (e\<lparr>he_is_deleted := True\<rparr>)],
            ht_count := ht_count self - 1\<rparr>)"
  | (absent) pos ps t where
      "search self key = Inr ((None, pos, ps), t)"
      "delete self key = Inr ((False, Not_found, ps), t)"
  using assms
proof (cases rule: search_outcome [of self key])
  case (found k d')
  from found(3) obtain e where e: "slot_at self key (int k) = Some e"
    by (auto simp: holds_key_def split: option.splits)
  from wf_slot_product [OF assms e] obtain q where q: "he_product e = Some q" by blast
  have "delete self key =
         Inr ((True, Deleted_from (position self key (int k)), probes self key 0 (Suc k)),
           (log_search self key (int k) (probes self key 0 (Suc k))
              (Search_found (int k) (position self key (int k))) d')
           \<lparr>ht_table := (ht_table self)
               [nat (position self key (int k)) := Some (e\<lparr>he_is_deleted := True\<rparr>)],
            ht_count := ht_count self - 1\<rparr>)"
    using found(4) e q wf_index [OF assms, of key "int k"]
    by (simp add: delete_def slot_at_def [symmetric])
  with found e show ?thesis by (intro deleted [of k e d']) simp_all
next
  case (empty k d')
  then show ?thesis by (intro absent) (simp_all add: delete_def)
next
  case exhausted
  then show ?thesis by (intro absent) (simp_all add: delete_def)
qed

lemma delete_logs:
  "delete self key = Inr (r, t) \<Longrightarrow>
   \<exists>r' t'. search self key = Inr (r', t') \<and> ht_collision_logs t = ht_collision_logs t'"
  by (auto simp: delete_def split: sum.splits option.splits prod.splits)

lemma well_formed_tombstone:
  assumes "well_formed t" "he_product e \<noteq> None"
  shows "well_formed (t\<lparr>ht_table := (ht_table t)[j := Some (e\<lparr>he_is_deleted := True\<rparr>)],
                       ht_count := c\<rparr>)"
  using assms
  by (auto simp: well_formed_def list_all_iff dest!: set_update_subset_insert [THEN subsetD])

lemma delete_well_formed:
  assumes "well_formed self" "delete self key = Inr (r, t)"
  shows "well_formed t"
  using assms(1)
proof (cases rule: delete_outcome [of self key])
  case (deleted k d' e)
  from wf_slot_product [OF assms(1) deleted(3)] have "he_product e \<noteq> None" by auto
  from well_formed_tombstone [OF _ this,
      of "log_search self key (int k) (probes self key 0 (Suc k))
              (Search_found (int k) (position self key (int k))) d'"]
    assms deleted(5)
  show ?thesis by auto
next
  case (absent pos ps t')
  with assms search_well_formed [OF assms(1) absent(1)] show ?thesis by simp
qed

lemma delete_total:
  assumes "well_formed self"
  shows "\<exists>r t. delete self key = Inr (r, t)"
  using assms by (cases rule: delete_outcome [of self key]) auto

lemma insert_tagged:
  assumes "well_formed self" "insert_ht self p = Inr (r, t)"
    and "list_all tagged (ht_collision_logs self)"
  shows "list_all tagged (ht_collision_logs t)"
proof (cases "ht_count self < ht_size self")
  case False
  with assms show ?thesis by (simp add: insert_ht_def)
next
  case True
  from assms(1) True show ?thesis
    by (cases rule: insert_outcome [of self p]) (use assms in \<open>auto simp: tagged_def\<close>)
qed

lemma search_tagged:
  assumes "well_formed self" "search self key = Inr (r, t)"
    and "list_all tagged (ht_collision_logs self)"
  shows "list_all tagged (ht_collision_logs t)"
  using assms(1)
  by (cases rule: search_outcome [of self key]) (use assms in \<open>auto simp: tagged_def\<close>)

lemma delete_tagged:
  assumes "well_formed self" "delete self key = Inr (r, t)"
    and "list_all tagged (ht_collision_logs self)"
  shows "list_all tagged (ht_collision_logs t)"
proof -
  from delete_logs [OF assms(2)] obtain r' t' where
    s: "search self key = Inr (r', t')" "ht_collision_logs t = ht_collision_logs t'" by blast
  from search_tagged [OF assms(1) s(1) assms(3)] s(2) show ?thesis by simp
qed

lemma apply_op_invariant:
  assumes "well_formed self" "list_all tagged (ht_collision_logs self)"
  shows "\<exists>t. apply_op self op = Inr t \<and> well_formed t \<and> list_all tagged (ht_collision_logs t)"
proof (cases op)
  case (Insert p)
  from insert_total [OF assms(1), of p] obtain r t where "insert_ht self p = Inr (r, t)"
    by blast
  with Insert insert_well_formed [OF assms(1) this] insert_tagged [OF assms(1) this assms(2)]
  show ?thesis by (simp add: apply_op_def)
next
  case (Search key)
  from search_total [OF assms(1), of key] obtain r t where "search self key = Inr (r, t)"
    by blast
  with Search search_well_formed [OF assms(1) this] search_tagged [OF assms(1) this assms(2)]
  show ?thesis by (simp add: apply_op_def)
next
  case (Delete key)
  from delete_total [OF assms(1), of key] obtain r t where "delete self key = Inr (r, t)"
    by blast
  with Delete delete_well_formed [OF assms(1) this] delete_tagged [OF assms(1) this assms(2)]
  show ?thesis by (simp add: apply_op_def)
qed

lemma run_invariant:
  assumes "well_formed self" "list_all tagged (ht_collision_logs self)"
  shows "\<exists>t. run self ops = Inr t \<and> well_formed t \<and> list_all tagged (ht_collision_logs t)"
  using assms
proof (induction ops arbitrary: self)
  case Nil
  then show ?case by simp
next
  case (Cons op ops)
  from apply_op_invariant [OF Cons.prems, of op] obtain t where
    t: "apply_op self op = Inr t" "well_formed t" "list_all tagged (ht_collision_logs t)"
    by blast
  from Cons.IH [OF t(2) t(3)] t(1) show ?case by simp
qed

lemma well_formed_init: "0 < n \<Longrightarrow> well_formed (DoubleHashTable_init n)"
  by (simp add: well_formed_def DoubleHashTable_init_def list_all_iff)

lemma apply_op_degenerate:
  assumes "n \<le> 0" "apply_op (DoubleHashTable_init n) op = Inr t"
  shows "t = DoubleHashTable_init n"
proof (cases op)
  case (Insert p)
  with assms show ?thesis
    by (auto simp: apply_op_def insert_ht_def DoubleHashTable_init_def)
next
  case (Search key)
  with assms show ?thesis
    by (auto simp: apply_op_def search_def hash1_def py_mod_def DoubleHashTable_init_def
        split: if_splits)
next
  case (Delete key)
  with assms show ?thesis
    by (auto simp: apply_op_def delete_def search_def hash1_def py_mod_def
        DoubleHashTable_init_def split: if_splits)
qed

lemma run_degenerate:
  "n \<le> 0 \<Longrightarrow> run (DoubleHashTable_init n) ops = Inr t \<Longrightarrow> t = DoubleHashTable_init n"
proof (induction ops)
  case Nil
  then show ?case by simp
next
  case (Cons op ops)
  from Cons.prems(2) obtain t' where t': "apply_op (DoubleHashTable_init n) op = Inr t'"
    "run t' ops = Inr t" by (auto split: sum.splits)
  from apply_op_degenerate [OF Cons.prems(1) t'(1)] t'(2) Cons.IH [OF Cons.prems(1)]
  show ?case by simp
qed


section \<open>The full-table check of insert\<close>

text \<open>
  C7. When the live-entry counter has reached the capacity, \<open>insert\<close> returns the
  table-full failure with an empty probe sequence and the table it was given: slots,
  counters and collision log are untouched, and nothing was probed.
\<close>

theorem insert_table_full:
  "ht_count self \<ge> ht_size self \<Longrightarrow>
   insert_ht self product = Inr ((False, Table_full, []), self)"
  by (simp add: insert_ht_def)

theorem insert_table_full_witness:
  "ht_count (DoubleHashTable_init 0) \<ge> ht_size (DoubleHashTable_init 0) \<and>
   insert_ht (DoubleHashTable_init 0) (sample ''A1'') =
     Inr ((False, Table_full, []), DoubleHashTable_init 0)"
  using insert_table_full [of "DoubleHashTable_init 0" "sample ''A1''"]
  by (simp add: DoubleHashTable_init_def)

section \<open>Export and import round trip\<close>

lemma Product_round_trip: "Product_from_dict (Product_to_dict p) = p"
  by (simp add: Product_from_dict_def Product_to_dict_def)

lemma HashEntry_round_trip: "HashEntry_from_dict (HashEntry_to_dict e) = e"
  by (simp add: HashEntry_from_dict_def HashEntry_to_dict_def Product_round_trip
      split: option.splits)

lemma slots_round_trip:
  "map (\<lambda>entry. case entry of None \<Rightarrow> None | Some d \<Rightarrow> Some (HashEntry_from_dict d))
     (map (\<lambda>entry. case entry of None \<Rightarrow> None | Some e \<Rightarrow> Some (HashEntry_to_dict e)) xs) = xs"
  by (induction xs) (simp_all add: HashEntry_round_trip split: option.splits)

lemma log_round_trip:
  "log_consistent lg \<Longrightarrow>
   CollisionLog_init (cl_key lg) (cl_operation lg) (cl_probe_sequence lg)
     (cl_resolution lg) (cl_calculation_details lg) = lg"
  by (simp add: CollisionLog_init_def log_consistent_def split: option.splits)

lemma logs_round_trip:
  "list_all log_consistent logs \<Longrightarrow>
   map (\<lambda>lg. CollisionLog_init (ld_key lg) (ld_operation lg) (ld_probe_sequence lg)
                (ld_resolution lg) (ld_calculation_details lg))
     (map (\<lambda>lg.
        \<lparr>ld_key = cl_key lg,
         ld_operation = cl_operation lg,
         ld_probe_sequence = cl_probe_sequence lg,
         ld_collision_count = cl_collision_count lg,
         ld_resolution = cl_resolution lg,
         ld_calculation_details = cl_calculation_details lg\<rparr>) logs) = logs"
  by (induction logs) (simp_all add: log_round_trip)

text \<open>
  Every log entry is built by the constructor, so every table that a run of operations
  reaches from a fresh table, and every table that \<open>from_dict\<close> builds, has consistent
  log entries.
\<close>

lemma log_consistent_init [simp]: "log_consistent (CollisionLog_init key oper ps r d)"
  by (simp add: log_consistent_def)

lemma insert_consistent:
  assumes "well_formed self" "insert_ht self p = Inr (r, t)"
    and "list_all log_consistent (ht_collision_logs self)"
  shows "list_all log_consistent (ht_collision_logs t)"
proof (cases "ht_count self < ht_size self")
  case False
  with assms show ?thesis by (simp add: insert_ht_def)
next
  case True
  from assms(1) True show ?thesis
    by (cases rule: insert_outcome [of self p]) (use assms in auto)
qed

lemma search_consistent:
  assumes "well_formed self" "search self key = Inr (r, t)"
    and "list_all log_consistent (ht_collision_logs self)"
  shows "list_all log_consistent (ht_collision_logs t)"
  using assms(1)
  by (cases rule: search_outcome [of self key]) (use assms in auto)

lemma delete_consistent:
  assumes "well_formed self" "delete self key = Inr (r, t)"
    and "list_all log_consistent (ht_collision_logs self)"
  shows "list_all log_consistent (ht_collision_logs t)"
proof -
  from delete_logs [OF assms(2)] obtain r' t' where
    s: "search self key = Inr (r', t')" "ht_collision_logs t = ht_collision_logs t'" by blast
  from search_consistent [OF assms(1) s(1) assms(3)] s(2) show ?thesis by simp
qed

lemma run_consistent:
  assumes "well_formed self" "list_all log_consistent (ht_collision_logs self)"
    and "run self ops = Inr t"
  shows "list_all log_consistent (ht_collision_logs t)"
  using assms
proof (induction ops arbitrary: self)
  case Nil
  then show ?case by simp
next
  case (Cons op ops)
  from Cons.prems(3) obtain t' where t': "apply_op self op = Inr t'" "run t' ops = Inr t"
    by (auto split: sum.splits)
  have "well_formed t' \<and> list_all log_consistent (ht_collision_logs t')"
  proof (cases op)
    case (Insert p)
    with t'(1) obtain r where "insert_ht self p = Inr (r, t')"
      by (cases "insert_ht self p") (auto simp: apply_op_def)
    with insert_well_formed [OF Cons.prems(1)] insert_consistent [OF Cons.prems(1) _ Cons.prems(2)]
    show ?thesis by blast
  next
    case (Search key)
    with t'(1) obtain r where "search self key = Inr (r, t')"
      by (cases "search self key") (auto simp: apply_op_def)
    with search_well_formed [OF Cons.prems(1)] search_consistent [OF Cons.prems(1) _ Cons.prems(2)]
    show ?thesis by blast
  next
    case (Delete key)
    with t'(1) obtain r where "delete self key = Inr (r, t')"
      by (cases "delete self key") (auto simp: apply_op_def)
    with delete_well_formed [OF Cons.prems(1)] delete_consistent [OF Cons.prems(1) _ Cons.prems(2)]
    show ?thesis by blast
  qed
  with Cons.IH [of t'] t'(2) show ?case by blast
qed

lemma reachable_consistent:
  assumes "run (DoubleHashTable_init n) ops = Inr t"
  shows "list_all log_consistent (ht_collision_logs t)"
proof (cases "0 < n")
  case True
  from run_consistent [OF well_formed_init [OF True] _ assms] show ?thesis
    by (simp add: DoubleHashTable_init_def)
next
  case False
  then have "n \<le> 0" by simp
  from run_degenerate [OF this assms] show ?thesis by (simp add: DoubleHashTable_init_def)
qed

lemma from_dict_consistent: "list_all log_consistent (ht_collision_logs (from_dict data))"
  by (auto simp: from_dict_def DoubleHashTable_init_def Let_def list_all_iff split: option.splits)

text \<open>
  C9. Importing the exported form of a table gives the table back: the same capacity,
  live-entry count and lifetime collision count, the same slots (each empty, or the
  same product with the same tombstone flag), and the same log entries field by field.
  The exported collision count of a log entry is not read back but recomputed from the
  probe sequence, so the entries must carry the count their constructor gave them.
\<close>

theorem export_import_round_trip:
  "list_all log_consistent (ht_collision_logs self) \<Longrightarrow> from_dict (to_dict self) = self"
  by (simp add: from_dict_def to_dict_def DoubleHashTable_init_def get_collision_logs_def
      slots_round_trip logs_round_trip del: map_map)

theorem export_import_round_trip_witness:
  "ht_collision_logs collided_table \<noteq> [] \<and>
   list_all log_consistent (ht_collision_logs collided_table) \<and>
   from_dict (to_dict collided_table) = collided_table"
proof -
  have logged: "ht_collision_logs collided_table \<noteq> []"
    by code_simp
  have consistent: "list_all log_consistent (ht_collision_logs collided_table)"
    by code_simp
  show ?thesis
    using logged consistent export_import_round_trip [OF consistent] by simp
qed

section \<open>When the collision log grows\<close>

lemma holds_key_product:
  "holds_key slot key \<Longrightarrow> Option.bind slot he_product \<noteq> None"
  by (auto simp: holds_key_def split: option.splits)

lemma insert_log_rule:
  assumes "well_formed self" "insert_ht self p = Inr ((ok, msg, ps), t)"
  shows "if ok \<and> 1 < length ps
         then appended self t (py ''INSERT'') (ma_san_pham p) ps
         else ht_collision_logs t = ht_collision_logs self"
proof (cases "ht_count self < ht_size self")
  case False
  with assms show ?thesis by (simp add: insert_ht_def)
next
  case True
  from assms(1) True show ?thesis
    by (cases rule: insert_outcome [of self p]) (use assms(2) in \<open>auto simp: appended_def\<close>)
qed

lemma search_log_rule:
  assumes "well_formed self" "search self key = Inr ((res, pos, ps), t)"
  shows "if (res \<noteq> None \<or> ended_empty self ps) \<and> 1 < length ps
         then appended self t (py ''SEARCH'') key ps
         else ht_collision_logs t = ht_collision_logs self"
  using assms(1)
proof (cases rule: search_outcome [of self key])
  case (found k d')
  from holds_key_product [OF found(3)] found(4) assms(2) show ?thesis
    by (auto simp: appended_def)
next
  case (empty k d')
  have "ended_empty self (probes self key 0 (Suc k))"
    unfolding ended_empty_def using empty(3) last_probes [of self key 0 k]
    by (simp add: slot_at_def del: probes.simps) (metis length_probes length_0_conv nat.distinct(1))
  with empty(4) assms(2) show ?thesis
    by (auto simp: appended_def)
next
  case exhausted
  have "\<not> ended_empty self (probes self key 0 (nat (ht_size self)))"
  proof (cases "nat (ht_size self)")
    case 0
    then show ?thesis by (simp add: ended_empty_def)
  next
    case (Suc n)
    with exhausted(1) have "continues (slot_at self key (int n)) key" by simp
    then have "slot_at self key (int n) \<noteq> None" by (simp add: continues_def)
    with last_probes [of self key 0 n] Suc show ?thesis
      by (simp add: ended_empty_def slot_at_def del: probes.simps)
  qed
  with exhausted(2) assms(2) show ?thesis by auto
qed

lemma delete_log_rule:
  assumes "well_formed self" "delete self key = Inr ((ok, msg, ps), t)"
  shows "if (ok \<or> ended_empty self ps) \<and> 1 < length ps
         then appended self t (py ''SEARCH'') key ps
         else ht_collision_logs t = ht_collision_logs self"
  using assms(1)
proof (cases rule: delete_outcome [of self key])
  case (deleted k d' e)
  with assms(2) show ?thesis by (auto simp: appended_def)
next
  case (absent pos' ps' t')
  from search_log_rule [OF assms(1) absent(1)] absent(2) assms(2) show ?thesis by auto
qed

text \<open>
  C8, as the code has it. On a well-formed table: an insert appends one entry, of
  operation \<open>INSERT\<close>, exactly when it succeeds with a probe sequence of more than one
  slot; a search, and the search that delete runs, appends one entry, of operation
  \<open>SEARCH\<close>, exactly when it ends at an empty slot or at its key with a probe sequence
  of more than one slot. A failed insert and a search that used up all its attempts
  append nothing, however long their probe sequence. The appended entry carries the
  probe sequence of the operation and its length minus one as collision count; the
  earlier entries stay as they were.
\<close>

theorem collision_log_rule:
  "well_formed self \<Longrightarrow>
   (\<forall>p ok msg ps t. insert_ht self p = Inr ((ok, msg, ps), t) \<longrightarrow>
      (if ok \<and> 1 < length ps
       then appended self t (py ''INSERT'') (ma_san_pham p) ps
       else ht_collision_logs t = ht_collision_logs self)) \<and>
   (\<forall>key res pos ps t. search self key = Inr ((res, pos, ps), t) \<longrightarrow>
      (if (res \<noteq> None \<or> ended_empty self ps) \<and> 1 < length ps
       then appended self t (py ''SEARCH'') key ps
       else ht_collision_logs t = ht_collision_logs self)) \<and>
   (\<forall>key ok msg ps t. delete self key = Inr ((ok, msg, ps), t) \<longrightarrow>
      (if (ok \<or> ended_empty self ps) \<and> 1 < length ps
       then appended self t (py ''SEARCH'') key ps
       else ht_collision_logs t = ht_collision_logs self))"
  using insert_log_rule search_log_rule delete_log_rule by blast

theorem collision_log_rule_witness:
  "well_formed collided_table \<and>
   search collided_table (py ''F'') =
     Inr ((Some (sample ''F''), 2, [0, 2]), snd (projr (search collided_table (py ''F'')))) \<and>
   appended collided_table (snd (projr (search collided_table (py ''F''))))
     (py ''SEARCH'') (py ''F'') [0, 2]"
proof -
  have wf: "well_formed collided_table" by code_simp
  have s: "search collided_table (py ''F'') =
     Inr ((Some (sample ''F''), 2, [0, 2]), snd (projr (search collided_table (py ''F''))))"
    by code_simp
  from collision_log_rule [OF wf] s
  have "if (Some (sample ''F'') \<noteq> None \<or> ended_empty collided_table [0, 2]) \<and>
           1 < length [0, 2 :: int]
        then appended collided_table (snd (projr (search collided_table (py ''F''))))
               (py ''SEARCH'') (py ''F'') [0, 2]
        else ht_collision_logs (snd (projr (search collided_table (py ''F'')))) =
               ht_collision_logs collided_table"
    by blast
  with wf s show ?thesis by simp
qed

text \<open>
  The claim as stated fails: inserting F again into the table that holds A and F walks
  the slots 0 and 2, finds F, and returns the duplicate failure without a log entry
  (only the collision counter has moved, from 2 to 3).
\<close>

theorem duplicate_insert_not_logged:
  "run (DoubleHashTable_init 5) [Insert (sample ''A''), Insert (sample ''F'')] =
     Inr collided_table \<and>
   insert_ht collided_table (sample ''F'') =
     Inr ((False, Already_exists, [0, 2]), collided_table\<lparr>ht_collision_count := 3\<rparr>) \<and>
   ht_collision_logs (collided_table\<lparr>ht_collision_count := 3\<rparr>) =
     ht_collision_logs collided_table"
proof -
  have "run (DoubleHashTable_init 5) [Insert (sample ''A''), Insert (sample ''F'')] =
     Inr collided_table"
    by code_simp
  moreover have "insert_ht collided_table (sample ''F'') =
     Inr ((False, Already_exists, [0, 2]), collided_table\<lparr>ht_collision_count := 3\<rparr>)"
    by code_simp
  ultimately show ?thesis by simp
qed

section \<open>The collision counter of an insert that collides and lands\<close>

text \<open>
  C3, as the code has it. When the first attempt of an insert meets a live entry with
  another key and the insert then lands, the lifetime collision counter has grown by
  two: once at the first attempt, once at the landing. The probe sequence has more than
  one slot and one \<open>INSERT\<close> entry with collision count \<open>len(ps) - 1\<close> is appended.
\<close>

theorem first_collision_counted_twice:
  assumes "well_formed self"
    and "probe self (ma_san_pham p) 0 = Inr pos"
    and "ht_table self ! nat pos = Some e"
    and "\<not> he_is_deleted e" "he_product e = Some q" "ma_san_pham q \<noteq> ma_san_pham p"
    and "insert_ht self p = Inr ((True, msg, ps), t)"
  shows "ht_collision_count t = ht_collision_count self + 2 \<and> 1 < length ps \<and>
         appended self t (py ''INSERT'') (ma_san_pham p) ps"
proof -
  from assms(1,2) have pos: "pos = position self (ma_san_pham p) 0"
    by (simp add: wf_probe)
  with assms(3-6) have pass0: "passes (slot_at self (ma_san_pham p) 0) (ma_san_pham p)"
    by (simp add: passes_def is_live_def holds_key_def slot_at_def)
  have room: "ht_count self < ht_size self"
    using assms(7) by (auto simp: insert_ht_def split: if_splits)
  from assms(1) room show ?thesis
  proof (cases rule: insert_outcome [of self p])
    case (landed k d')
    have "k \<noteq> 0"
    proof
      assume "k = 0"
      with landed(3) pass0 show False by (simp add: passes_def)
    qed
    with landed(4) assms(7) show ?thesis by (auto simp: appended_def)
  next
    case (duplicate k)
    with assms(7) show ?thesis by simp
  next
    case exhausted
    with assms(7) show ?thesis by simp
  qed
qed

theorem first_collision_counted_twice_witness:
  "well_formed single_table \<and>
   probe single_table (py ''F'') 0 = Inr 0 \<and>
   ht_table single_table ! 0 = Some \<lparr>he_product = Some (sample ''A''), he_is_deleted = False\<rparr> \<and>
   insert_ht single_table (sample ''F'') = Inr ((True, Inserted_at 2, [0, 2]), collided_table) \<and>
   ht_collision_count collided_table = ht_collision_count single_table + 2 \<and>
   appended single_table collided_table (py ''INSERT'') (py ''F'') [0, 2]"
proof -
  have wf: "well_formed single_table" by code_simp
  have pr: "probe single_table (ma_san_pham (sample ''F'')) 0 = Inr 0" by code_simp
  have slot: "ht_table single_table ! nat 0 =
      Some \<lparr>he_product = Some (sample ''A''), he_is_deleted = False\<rparr>" by code_simp
  have live: "\<not> he_is_deleted \<lparr>he_product = Some (sample ''A''), he_is_deleted = False\<rparr>"
    by simp
  have prod: "he_product \<lparr>he_product = Some (sample ''A''), he_is_deleted = False\<rparr> =
      Some (sample ''A'')" by simp
  have other: "ma_san_pham (sample ''A'') \<noteq> ma_san_pham (sample ''F'')" by code_simp
  have ins: "insert_ht single_table (sample ''F'') =
      Inr ((True, Inserted_at 2, [0, 2]), collided_table)" by code_simp
  have key: "ma_san_pham (sample ''F'') = py ''F''" by (simp add: sample_def)
  from first_collision_counted_twice [OF wf pr slot live prod other ins] wf pr slot ins key
  show ?thesis by simp
qed

text \<open>
  The claim as stated fails: F inserted into the table holding A collides at slot 0,
  lands at slot 2, and the counter goes from 0 to 2, not to 1.
\<close>

theorem first_collision_counter_example:
  "run (DoubleHashTable_init 5) [Insert (sample ''A'')] = Inr single_table \<and>
   ht_table single_table =
     [Some \<lparr>he_product = Some (sample ''A''), he_is_deleted = False\<rparr>, None, None, None, None] \<and>
   probe single_table (py ''F'') 0 = Inr 0 \<and>
   fst (projr (insert_ht single_table (sample ''F''))) = (True, Inserted_at 2, [0, 2]) \<and>
   ht_collision_count (snd (projr (insert_ht single_table (sample ''F'')))) =
     ht_collision_count single_table + 2 \<and>
   ht_collision_count (snd (projr (insert_ht single_table (sample ''F'')))) \<noteq>
     ht_collision_count single_table + 1"
  by code_simp

section \<open>The live-entry counter\<close>

text \<open>
  The counter equals the number of live slots in every state that a run of operations
  reaches from a fresh table of positive capacity.
\<close>

lemma length_filter_update:
  "j < length xs \<Longrightarrow>
   int (length (filter P (xs[j := x]))) =
     int (length (filter P xs)) - (if P (xs ! j) then 1 else 0) + (if P x then 1 else 0)"
proof (induction xs arbitrary: j)
  case Nil
  then show ?case by simp
next
  case (Cons a xs)
  show ?case
  proof (cases j)
    case 0
    then show ?thesis by simp
  next
    case (Suc m)
    with Cons.prems have "m < length xs" by simp
    from Cons.IH [OF this] Suc show ?thesis by (auto split: if_splits)
  qed
qed

lemma live_count_fields [simp]:
  "live_count (first_touch t i k) = live_count t"
  "live_count (log_search t key i ps r d) = live_count t"
  by (simp_all add: live_count_def)

lemma insert_accurate:
  assumes "well_formed self" "ht_count self = live_count self"
    and "insert_ht self p = Inr (r, t)"
  shows "ht_count t = live_count t"
proof (cases "ht_count self < ht_size self")
  case False
  with assms show ?thesis by (simp add: insert_ht_def)
next
  case True
  from assms(1) True show ?thesis
  proof (cases rule: insert_outcome [of self p])
    case (landed k d')
    have "nat (position self (ma_san_pham p) (int k)) < length (ht_table self)"
      by (rule wf_nat_position [OF assms(1)])
    from length_filter_update [OF this, of is_live
        "Some \<lparr>he_product = Some p, he_is_deleted = False\<rparr>"] landed(3)
    have "live_count t = live_count self + 1"
      using landed(4) assms(3) by (auto simp: live_count_def slot_at_def is_live_def)
    with landed(4) assms(2,3) show ?thesis by auto
  next
    case (duplicate k)
    with assms show ?thesis by auto
  next
    case exhausted
    with assms show ?thesis by auto
  qed
qed

lemma search_accurate:
  assumes "well_formed self" "ht_count self = live_count self"
    and "search self key = Inr (r, t)"
  shows "ht_count t = live_count t"
  using assms(1)
  by (cases rule: search_outcome [of self key]) (use assms in auto)

lemma delete_accurate:
  assumes "well_formed self" "ht_count self = live_count self"
    and "delete self key = Inr (r, t)"
  shows "ht_count t = live_count t"
  using assms(1)
proof (cases rule: delete_outcome [of self key])
  case (deleted k d' e)
  have "nat (position self key (int k)) < length (ht_table self)"
    by (rule wf_nat_position [OF assms(1)])
  from length_filter_update [OF this, of is_live "Some (e\<lparr>he_is_deleted := True\<rparr>)"]
    deleted(3,4)
  have "live_count t = live_count self - 1"
    using deleted(5) assms(3)
    by (auto simp: live_count_def slot_at_def is_live_def holds_key_def)
  with deleted(5) assms(2,3) show ?thesis by auto
next
  case (absent pos ps t')
  with assms search_accurate [OF assms(1,2) absent(1)] show ?thesis by simp
qed

lemma run_accurate:
  assumes "well_formed self" "ht_count self = live_count self" "run self ops = Inr t"
  shows "well_formed t \<and> ht_count t = live_count t"
  using assms
proof (induction ops arbitrary: self)
  case Nil
  then show ?case by simp
next
  case (Cons op ops)
  from Cons.prems(3) obtain t' where t': "apply_op self op = Inr t'" "run t' ops = Inr t"
    by (auto split: sum.splits)
  have "well_formed t' \<and> ht_count t' = live_count t'"
  proof (cases op)
    case (Insert p)
    with t'(1) obtain r where "insert_ht self p = Inr (r, t')"
      by (cases "insert_ht self p") (auto simp: apply_op_def)
    with insert_well_formed [OF Cons.prems(1)] insert_accurate [OF Cons.prems(1,2)]
    show ?thesis by blast
  next
    case (Search key)
    with t'(1) obtain r where "search self key = Inr (r, t')"
      by (cases "search self key") (auto simp: apply_op_def)
    with search_well_formed [OF Cons.prems(1)] search_accurate [OF Cons.prems(1,2)]
    show ?thesis by blast
  next
    case (Delete key)
    with t'(1) obtain r where "delete self key = Inr (r, t')"
      by (cases "delete self key") (auto simp: apply_op_def)
    with delete_well_formed [OF Cons.prems(1)] delete_accurate [OF Cons.prems(1,2)]
    show ?thesis by blast
  qed
  with Cons.IH [of t'] t'(2) show ?case by blast
qed

lemma reachable_accurate:
  "0 < n \<Longrightarrow> run (DoubleHashTable_init n) ops = Inr t \<Longrightarrow>
   well_formed t \<and> ht_count t = live_count t"
  by (rule run_accurate [OF well_formed_init])
    (simp_all add: live_count_def DoubleHashTable_init_def is_live_def)

section \<open>Probe walks with a step coprime to the capacity\<close>






text \<open>A prime capacity makes every step coprime to it.\<close>

lemma prime_capacity_coprime:
  assumes "prime_number (ht_size self)"
  shows "coprime (hash2 self key) (ht_size self)"
proof -
  define p where "p = ht_size self"
  define h where "h = hash2 self key"
  from assms have p2: "1 < p" and nodiv: "\<And>d. 1 < d \<Longrightarrow> d < p \<Longrightarrow> \<not> d dvd p"
    by (auto simp: prime_number_def p_def)
  have "get_prime_less_than p < p"
  proof (cases "find is_prime (rev [2 .. p - 1])")
    case None
    with p2 show ?thesis by (simp add: get_prime_less_than_def)
  next
    case (Some r)
    from get_prime_Some [OF this] show ?thesis by simp
  qed
  with hash2_range [of self key] have h: "1 \<le> h" "h < p" by (simp_all add: h_def p_def)
  define g where "g = gcd h p"
  have gp: "g dvd p" and gh: "g dvd h" by (simp_all add: g_def)
  have g0: "0 < g" using p2 by (simp add: g_def)
  from gh h have "g \<le> h" by (intro zdvd_imp_le) simp_all
  with h have "g < p" by simp
  with nodiv [of g] gp have "\<not> 1 < g" by blast
  with g0 have "g = 1" by simp
  then show ?thesis by (simp add: g_def h_def p_def coprime_iff_gcd_eq_1)
qed




section \<open>Insert, then search\<close>

lemma search_finds:
  assumes wf: "well_formed self" and k: "k < nat (ht_size self)"
    and "\<forall>m<k. continues (slot_at self key (int m)) key"
    and "holds_key (slot_at self key (int k)) key"
  shows "\<exists>d'. search self key =
     Inr ((Option.bind (slot_at self key (int k)) he_product, position self key (int k),
           probes self key 0 (Suc k)),
       log_search self key (int k) (probes self key 0 (Suc k))
         (Search_found (int k) (position self key (int k))) d')"
proof -
  from wf have h1: "hash1 self key = Inr (ascii_sum key mod ht_size self)"
    by (simp add: hash1_def py_mod_def well_formed_def)
  define d where "d = calculation_details_init self key (ascii_sum key mod ht_size self)"
  have "search self key = search_loop key (nat (ht_size self)) 0 [] d self"
    using h1 by (simp add: search_def d_def)
  with search_loop_found [OF wf k, of key 0 "[]" d] assms(3,4) show ?thesis by simp
qed

lemma position_size:
  "ht_size t = ht_size self \<Longrightarrow> position t key i = position self key i"
  by (simp add: position_def hash2_def)

lemma probes_size:
  assumes "ht_size t = ht_size self"
  shows "probes t key i n = probes self key i n"
  by (induction n arbitrary: i) (simp_all add: position_size [OF assms])









section \<open>Uniqueness of live keys\<close>

text \<open>
  C1 does not hold of the code. Insert stores its entry in the first empty or
  tombstoned slot of the walk and never looks further, so it misses a live entry with
  the same key that lies behind a tombstone. After inserting A and F (F collides with
  A at slot 0 and lands at slot 2) and deleting A, a second insert of F succeeds at
  slot 0: the slots 0 and 2 both hold a live entry with key F.
\<close>

theorem duplicate_live_key:
  "run (DoubleHashTable_init 5)
     [Insert (sample ''A''), Insert (sample ''F''), Delete (py ''A'')] = Inr tombstoned_table \<and>
   ht_table tombstoned_table =
     [Some \<lparr>he_product = Some (sample ''A''), he_is_deleted = True\<rparr>, None,
      Some \<lparr>he_product = Some (sample ''F''), he_is_deleted = False\<rparr>, None, None] \<and>
   insert_ht tombstoned_table (sample ''F'') =
     Inr ((True, Inserted_at 0, [0]), reinserted_table) \<and>
   ht_table reinserted_table =
     [Some \<lparr>he_product = Some (sample ''F''), he_is_deleted = False\<rparr>, None,
      Some \<lparr>he_product = Some (sample ''F''), he_is_deleted = False\<rparr>, None, None] \<and>
   ht_count reinserted_table = 2"
  by code_simp

section \<open>Search after delete\<close>

lemma search_misses:
  assumes wf: "well_formed self" and k: "k < nat (ht_size self)"
    and "\<forall>m<k. continues (slot_at self key (int m)) key"
    and "slot_at self key (int k) = None"
  shows "\<exists>t. search self key = Inr ((None, - 1, probes self key 0 (Suc k)), t)"
proof -
  from wf have h1: "hash1 self key = Inr (ascii_sum key mod ht_size self)"
    by (simp add: hash1_def py_mod_def well_formed_def)
  define d where "d = calculation_details_init self key (ascii_sum key mod ht_size self)"
  have "search self key = search_loop key (nat (ht_size self)) 0 [] d self"
    using h1 by (simp add: search_def d_def)
  with search_loop_empty [OF wf k, of key 0 "[]" d] assms(3,4) show ?thesis by auto
qed

lemma search_exhausts:
  assumes wf: "well_formed self"
    and "\<forall>m<nat (ht_size self). continues (slot_at self key (int m)) key"
  shows "search self key = Inr ((None, - 1, probes self key 0 (nat (ht_size self))), self)"
proof -
  from wf have h1: "hash1 self key = Inr (ascii_sum key mod ht_size self)"
    by (simp add: hash1_def py_mod_def well_formed_def)
  define d where "d = calculation_details_init self key (ascii_sum key mod ht_size self)"
  have "search self key = search_loop key (nat (ht_size self)) 0 [] d self"
    using h1 by (simp add: search_def d_def)
  with search_loop_exhausted [OF wf, of "nat (ht_size self)" key 0 "[]" d] assms(2)
  show ?thesis by simp
qed

text \<open>Tombstoning the entry of one key changes no search for another key.\<close>

lemma tombstone_transparent:
  assumes wf: "well_formed self"
    and del: "delete self key = Inr ((True, msg, ps), t)"
    and other: "key' \<noteq> key"
  shows "map_sum id fst (search t key') = map_sum id fst (search self key')"
  using wf
proof (cases rule: delete_outcome [of self key])
  case (absent pos' ps' t')
  with del show ?thesis by simp
next
  case (deleted k d' e)
  define j where "j = nat (position self key (int k))"
  have wft: "well_formed t" by (rule delete_well_formed [OF wf del])
  have size: "ht_size t = ht_size self" using deleted(5) del by auto
  have tbl: "ht_table t = (ht_table self)[j := Some (e\<lparr>he_is_deleted := True\<rparr>)]"
    using deleted(5) del by (auto simp: j_def)
  have jlen: "j < length (ht_table self)" unfolding j_def by (rule wf_nat_position [OF wf])
  have old: "ht_table self ! j = Some e" using deleted(3) by (simp add: slot_at_def j_def)
  have ekey: "holds_key (Some e) key" by (rule deleted(4))
  have rel: "(slot_at t key' i = None \<longleftrightarrow> slot_at self key' i = None) \<and>
      (holds_key (slot_at t key' i) key' \<longleftrightarrow> holds_key (slot_at self key' i) key') \<and>
      (holds_key (slot_at self key' i) key' \<longrightarrow> slot_at t key' i = slot_at self key' i)" for i
  proof (cases "nat (position self key' i) = j")
    case True
    with jlen old ekey other show ?thesis
      by (auto simp: slot_at_def tbl position_size [OF size] holds_key_def)
  next
    case False
    then show ?thesis by (simp add: slot_at_def tbl position_size [OF size])
  qed
  then have cont: "continues (slot_at t key' i) key' \<longleftrightarrow> continues (slot_at self key' i) key'"
    for i by (simp add: continues_def)
  from wf show ?thesis
  proof (cases rule: search_outcome [of self key'])
    case (found k' d'')
    from found(1) have k': "k' < nat (ht_size t)" by (simp add: size)
    from found(2) cont have c: "\<forall>m<k'. continues (slot_at t key' (int m)) key'" by simp
    from found(3) rel have h: "holds_key (slot_at t key' (int k')) key'" by simp
    from found(3) rel have same: "slot_at t key' (int k') = slot_at self key' (int k')" by simp
    from search_finds [OF wft k' c h] found(4) show ?thesis
      by (auto simp: same position_size [OF size] probes_size [OF size] simp del: probes.simps)
  next
    case (empty k' d'')
    from empty(1) have k': "k' < nat (ht_size t)" by (simp add: size)
    from empty(2) cont have c: "\<forall>m<k'. continues (slot_at t key' (int m)) key'" by simp
    from empty(3) rel have h: "slot_at t key' (int k') = None" by simp
    from search_misses [OF wft k' c h] empty(4) show ?thesis
      by (auto simp: probes_size [OF size] simp del: probes.simps)
  next
    case exhausted
    from exhausted(1) cont have
      c: "\<forall>m<nat (ht_size t). continues (slot_at t key' (int m)) key'" by (simp add: size)
    from search_exhausts [OF wft c] exhausted(2) show ?thesis
      by (simp add: probes_size [OF size] size)
  qed
qed

text \<open>
  When no second live entry holds the deleted key, a search for it after the delete
  finds nothing.
\<close>

lemma delete_then_search:
  assumes wf: "well_formed self"
    and del: "delete self key = Inr ((True, msg, ps), t)"
    and unique: "\<forall>i<length (ht_table self). \<forall>j<length (ht_table self).
        holds_key (ht_table self ! i) key \<and> holds_key (ht_table self ! j) key \<longrightarrow> i = j"
  shows "\<exists>ps' t'. search t key = Inr ((None, - 1, ps'), t')"
  using wf
proof (cases rule: delete_outcome [of self key])
  case (absent pos' ps' t')
  with del show ?thesis by simp
next
  case (deleted k d' e)
  define j where "j = nat (position self key (int k))"
  have wft: "well_formed t" by (rule delete_well_formed [OF wf del])
  have size: "ht_size t = ht_size self" using deleted(5) del by auto
  have tbl: "ht_table t = (ht_table self)[j := Some (e\<lparr>he_is_deleted := True\<rparr>)]"
    using deleted(5) del by (auto simp: j_def)
  have jlen: "j < length (ht_table self)" unfolding j_def by (rule wf_nat_position [OF wf])
  have old: "holds_key (ht_table self ! j) key"
    using deleted(3,4) by (simp add: slot_at_def j_def)
  have gone: "\<not> holds_key (slot_at t key i) key" for i
  proof (cases "nat (position self key i) = j")
    case True
    with jlen show ?thesis
      by (simp add: slot_at_def tbl position_size [OF size] holds_key_def)
  next
    case False
    have "nat (position self key i) < length (ht_table self)"
      by (rule wf_nat_position [OF wf])
    with unique jlen old False have "\<not> holds_key (ht_table self ! nat (position self key i)) key"
      by blast
    with False show ?thesis by (simp add: slot_at_def tbl position_size [OF size])
  qed
  from wft show ?thesis
  proof (cases rule: search_outcome [of t key])
    case (found k' d'')
    with gone show ?thesis by blast
  next
    case (empty k' d'')
    then show ?thesis by blast
  next
    case exhausted
    then show ?thesis by blast
  qed
qed

text \<open>
  C6 does not hold of the code, by the defect shown for C1. In the table with two live
  entries for F, deleting F succeeds and tombstones slot 0; the search for F that
  follows walks past the tombstone and finds the other live entry at slot 2. The rest
  of C6 is what the two lemmas above say: a search for another key is not changed by
  the tombstone, and the deleted key is gone when no second live entry held it.
\<close>

theorem deleted_key_still_found:
  "run (DoubleHashTable_init 5)
     [Insert (sample ''A''), Insert (sample ''F''), Delete (py ''A''), Insert (sample ''F'')] =
     Inr reinserted_table \<and>
   map_sum id fst (delete reinserted_table (py ''F'')) = Inr (True, Deleted_from 0, [0]) \<and>
   map_sum id fst (search (snd (projr (delete reinserted_table (py ''F'')))) (py ''F'')) =
     Inr (Some (sample ''F''), 2, [0, 2])"
  by code_simp

section \<open>Operation kinds in the collision log\<close>

text \<open>
  C10. After any sequence of insert, search and delete calls on a fresh table, every
  entry of the collision log carries the operation \<open>INSERT\<close> or \<open>SEARCH\<close>. A delete
  leaves the log exactly as the search it runs leaves it, so a delete that met
  collisions is recorded as a \<open>SEARCH\<close> entry only. On a fresh table of positive
  capacity no call of such a sequence raises.
\<close>

theorem log_operations:
  "(0 < n \<longrightarrow> (\<exists>t. run (DoubleHashTable_init n) ops = Inr t)) \<and>
   (\<forall>t. run (DoubleHashTable_init n) ops = Inr t \<longrightarrow>
      list_all tagged (ht_collision_logs t) \<and>
      (\<forall>key r t'. delete t key = Inr (r, t') \<longrightarrow>
         (\<exists>r' t''. search t key = Inr (r', t'') \<and>
            ht_collision_logs t' = ht_collision_logs t'')))"
proof (cases "0 < n")
  case True
  have "list_all tagged (ht_collision_logs (DoubleHashTable_init n))"
    by (simp add: DoubleHashTable_init_def)
  from run_invariant [OF well_formed_init [OF True] this, of ops] delete_logs
  show ?thesis by fastforce
next
  case False
  then have n: "n \<le> 0" by simp
  have "list_all tagged (ht_collision_logs t)" if "run (DoubleHashTable_init n) ops = Inr t" for t
    using run_degenerate [OF n that] by (simp add: DoubleHashTable_init_def)
  with False delete_logs show ?thesis by fastforce
qed

theorem log_operations_witness:
  "(0::int) < 5 \<and>
   run (DoubleHashTable_init 5)
     [Insert (sample ''A''), Insert (sample ''F''), Delete (py ''F'')] = Inr after_delete \<and>
   map cl_operation (ht_collision_logs after_delete) = [py ''INSERT'', py ''SEARCH''] \<and>
   list_all tagged (ht_collision_logs after_delete)"
proof -
  have r: "run (DoubleHashTable_init 5)
     [Insert (sample ''A''), Insert (sample ''F''), Delete (py ''F'')] = Inr after_delete"
    by code_simp
  have ops: "map cl_operation (ht_collision_logs after_delete) = [py ''INSERT'', py ''SEARCH'']"
    by code_simp
  from log_operations [of 5 "[Insert (sample ''A''), Insert (sample ''F''), Delete (py ''F'')]"] r
  have "list_all tagged (ht_collision_logs after_delete)" by blast
  with r ops show ?thesis by simp
qed

end
